theory Spec2Isabelle
  imports Main
begin

section \<open>Data model of \<open>ClientEngine.js\<close>\<close>

text \<open>
  JavaScript numbers that the client engine handles (step counts, player identifiers,
  message indices) hold integers in every use the file makes of them; they are modelled
  as \<open>int\<close>. Step counts are counters, compared and advanced far below \<open>2^53\<close>, where
  the arithmetic of doubles on integers is exact; the message index is a product with the
  player identifier, and is computed with the rounding of a double (\<open>toDouble\<close> below). A
  property that may be \<open>undefined\<close> (or \<open>NaN\<close>) is an \<open>option\<close>, with \<open>None\<close> for the
  missing number.
\<close>

datatype error = TypeError

text \<open>A sync event as the deserializer hands it over; only \<open>stepCount\<close> is read here.\<close>

record syncEvent =
  stepCount :: "int option"

text \<open>The \<open>data\<close> object of an input message, built in \<open>sendInput\<close>.\<close>

record inputData =
  d_messageIndex :: "int option"
  d_step :: int
  d_input :: string
  d_options :: "string option"

record message =
  command :: string
  data :: inputData

text \<open>\<open>syncOptions\<close>: the declarative sync mode and the reflect modifier.\<close>

record syncOptions =
  sync :: string
  reflect :: bool

text \<open>
  The synchronizer object that \<open>configureSynchronization\<close> writes its selectors to. A
  selector that has not been assigned is \<open>None\<close>.
\<close>

record 'o synchronizer =
  extrapolateObjectSelector :: "('o \<Rightarrow> bool) option"
  interpolateObjectSelector :: "('o \<Rightarrow> bool) option"
  frameSyncSelector :: "('o \<Rightarrow> bool) option"

text \<open>The options object handed to the constructor.\<close>

record inputOptions =
  delayInputCount :: "int option"
  opt_syncOptions :: "syncOptions option"

text \<open>What the client engine reads of the \<open>gameEngine\<close> it is constructed with.\<close>

record gameEngine =
  ge_stepCount :: int
  ge_serverStep :: "int option"
  ge_passive :: bool

text \<open>
  The state of a client engine: its own fields, the fields of \<open>gameEngine\<close> it reads and
  writes (\<open>world.stepCount\<close>, \<open>serverStep\<close>, \<open>passive\<close>, the step of the trace), and the
  calls it makes on its collaborators, kept as logs in call order:
  \<open>emitted\<close> for \<open>socket.emit(command, data)\<close>, \<open>processed\<close> for
  \<open>gameEngine.processInput(data, playerId)\<close>, \<open>syncReceived\<close> for the
  \<open>client.syncReceived\<close> notification. The payload type \<open>'p\<close> is the wire format, decoded
  by \<open>networkTransmitter.deserializePayload\<close>, a collaborator held in a field.
\<close>

record 'p client =
  options :: inputOptions
  deserializePayload :: "'p \<Rightarrow> syncEvent list"
  inboundMessages :: "'p list"
  outboundMessages :: "message list"
  delayedInputs :: "message list list option"
  playerId :: "int option"
  messageIndex :: "int option"
  skipOneStep :: bool
  doubleStep :: bool
  world_stepCount :: int
  serverStep :: "int option"
  gameEngine_passive :: bool
  traceStep :: int
  emitted :: "(string \<times> inputData) list"
  processed :: "(inputData \<times> int option) list"
  syncReceived :: "(syncEvent list \<times> int) list"

definition STEP_DRIFT_THRESHOLD :: int where
  "STEP_DRIFT_THRESHOLD = 10"

text \<open>JavaScript truthiness of a number that may be missing: \<open>undefined\<close> and \<open>0\<close> are falsy.\<close>

definition truthy :: "int option \<Rightarrow> bool" where
  "truthy v = (case v of None \<Rightarrow> False | Some n \<Rightarrow> n \<noteq> 0)"

text \<open>
  JavaScript numbers are IEEE 754 doubles. An integer of magnitude up to \<open>2^53\<close> is a
  double; the result of an arithmetic operation is the double nearest to the exact
  result, with ties going to the even significand. \<open>toDouble\<close> is that rounding on
  integers (of magnitude below the overflow threshold of the format): beyond \<open>2^53\<close> the
  low bits that do not fit the 53-bit significand are rounded away.
\<close>

fun bitLength :: "nat \<Rightarrow> nat" where
  "bitLength n = (if n = 0 then 0 else Suc (bitLength (n div 2)))"

declare bitLength.simps [simp del]

definition toDouble :: "int \<Rightarrow> int" where
  "toDouble n =
     (if \<bar>n\<bar> \<le> 2 ^ 53 then n
      else (let u = 2 ^ (bitLength (nat \<bar>n\<bar>) - 53);
                q = \<bar>n\<bar> div u;
                r = \<bar>n\<bar> mod u;
                q' = (if 2 * r > u \<or> (2 * r = u \<and> odd q) then q + 1 else q)
            in sgn n * (q' * u)))"

section \<open>Synchronization strategy selection\<close>

text \<open>
  \<open>configureSynchronization\<close>: reading \<open>syncOptions.sync\<close> of a missing \<open>syncOptions\<close>
  raises; \<open>reflect\<close> is rewritten in place to \<open>interpolate\<close> with the reflect modifier;
  \<open>newSynchronizer\<close> stands for \<open>new Synchronizer(this, syncOptions)\<close>.
\<close>

definition rewriteReflect :: "syncOptions \<Rightarrow> syncOptions" where
  "rewriteReflect so =
     (if sync so = ''reflect'' then so\<lparr>sync := ''interpolate'', reflect := True\<rparr> else so)"

definition selectStrategy :: "syncOptions \<Rightarrow> 'o synchronizer \<Rightarrow> 'o synchronizer" where
  "selectStrategy so syn =
     (if sync so = ''extrapolate'' then syn\<lparr>extrapolateObjectSelector := Some (\<lambda>_. True)\<rparr>
      else if sync so = ''interpolate'' then syn\<lparr>interpolateObjectSelector := Some (\<lambda>_. True)\<rparr>
      else if sync so = ''frameSync'' then syn\<lparr>frameSyncSelector := Some (\<lambda>_. True)\<rparr>
      else syn)"

definition configureSynchronization ::
  "(syncOptions \<Rightarrow> 'o synchronizer) \<Rightarrow> syncOptions option \<Rightarrow> error + (syncOptions \<times> 'o synchronizer)"
where
  "configureSynchronization newSynchronizer so_opt =
     (case so_opt of
        None \<Rightarrow> Inl TypeError
      | Some so0 \<Rightarrow>
          (let so = rewriteReflect so0;
               synchronizer = newSynchronizer so
           in Inr (so, selectStrategy so synchronizer)))"

section \<open>Construction and identity\<close>

text \<open>
  The constructor. \<open>delayInputCount\<close> is tested for truthiness; the loop
  \<open>for (i = 0; i < delayInputCount; i++) delayedInputs[i] = []\<close> creates one empty batch
  per index below the count, none when the count is negative.
\<close>

definition initialFields ::
  "('p \<Rightarrow> syncEvent list) \<Rightarrow> gameEngine \<Rightarrow> inputOptions \<Rightarrow> syncOptions \<Rightarrow> 'p client"
where
  "initialFields deser ge inputOptions so =
     \<lparr> options = inputOptions\<lparr>opt_syncOptions := Some so\<rparr>,
       deserializePayload = deser,
       inboundMessages = [],
       outboundMessages = [],
       delayedInputs =
         (if truthy (delayInputCount inputOptions)
          then Some (replicate (nat (the (delayInputCount inputOptions))) [])
          else None),
       playerId = None,
       messageIndex = None,
       skipOneStep = False,
       doubleStep = False,
       world_stepCount = ge_stepCount ge,
       serverStep = ge_serverStep ge,
       gameEngine_passive = ge_passive ge,
       traceStep = 0,
       emitted = [],
       processed = [],
       syncReceived = [] \<rparr>"

definition constructor ::
  "(syncOptions \<Rightarrow> 'o synchronizer) \<Rightarrow> ('p \<Rightarrow> syncEvent list) \<Rightarrow> gameEngine \<Rightarrow>
   inputOptions \<Rightarrow> error + 'p client"
where
  "constructor newSynchronizer deser ge inputOptions =
     (case configureSynchronization newSynchronizer (opt_syncOptions inputOptions) of
        Inl e \<Rightarrow> Inl e
      | Inr (so, syn) \<Rightarrow> Inr (initialFields deser ge inputOptions so))"

text \<open>
  The \<open>playerJoined\<close> handler: the identity, and the base of the sequence numbers,
  \<open>Number(playerId) * 10000\<close> as a double. The identifier is a JavaScript number holding an
  integer.
\<close>

definition playerJoined :: "int \<Rightarrow> 'p client \<Rightarrow> 'p client" where
  "playerJoined pid s =
     s\<lparr>playerId := Some pid, messageIndex := Some (toDouble (pid * 10000))\<rparr>"

text \<open>The \<open>worldUpdate\<close> handler installed by \<open>start\<close>: \<open>inboundMessages.push\<close>.\<close>

definition worldUpdate :: "'p \<Rightarrow> 'p client \<Rightarrow> 'p client" where
  "worldUpdate worldData s = s\<lparr>inboundMessages := inboundMessages s @ [worldData]\<rparr>"

section \<open>Inbound sync handler\<close>

text \<open>The reducer of \<open>handleInboundMessage\<close> and the fold from \<open>0\<close>.\<close>

definition stepReducer :: "int \<Rightarrow> syncEvent \<Rightarrow> int" where
  "stepReducer mx el = (if truthy (stepCount el) then max mx (the (stepCount el)) else mx)"

definition maxStepCount :: "syncEvent list \<Rightarrow> int" where
  "maxStepCount syncEvents = foldl stepReducer 0 syncEvents"

definition handleInboundMessage :: "'p \<Rightarrow> 'p client \<Rightarrow> 'p client" where
  "handleInboundMessage syncData s =
     (let syncEvents = deserializePayload s syncData;
          m = maxStepCount syncEvents;
          s1 = s\<lparr>syncReceived := syncReceived s @ [(syncEvents, m)]\<rparr>
      in if m > world_stepCount s1 then s1\<lparr>world_stepCount := m\<rparr> else s1)"

text \<open>
  The drain loop of \<open>step\<close>:
  \<open>while (inboundMessages.length > 0) handleInboundMessage(inboundMessages.pop())\<close>.
\<close>

function drainInbound :: "'p client \<Rightarrow> 'p client" where
  "drainInbound s =
     (if length (inboundMessages s) > 0
      then drainInbound
             (handleInboundMessage (last (inboundMessages s))
                (s\<lparr>inboundMessages := butlast (inboundMessages s)\<rparr>))
      else s)"
  by pat_completeness auto
termination
  by (relation "measure (\<lambda>s. length (inboundMessages s))")
     (auto simp: handleInboundMessage_def Let_def)

declare drainInbound.simps [simp del]

section \<open>Local input: issuing, delaying, applying, sending\<close>

text \<open>
  \<open>doInputLocal\<close>: nothing in a passive game engine, \<open>gameEngine.processInput\<close> with the
  message's data and the player's identity otherwise.
\<close>

definition doInputLocal :: "message \<Rightarrow> 'p client \<Rightarrow> 'p client" where
  "doInputLocal m s =
     (if gameEngine_passive s then s
      else s\<lparr>processed := processed s @ [(data m, playerId s)]\<rparr>)"

text \<open>
  \<open>applyDelayedInputs\<close>: \<open>shift\<close> takes the first batch (of an empty array it takes
  nothing), every message of it goes through \<open>doInputLocal\<close> in order, and an empty batch
  is pushed at the end.
\<close>

definition applyDelayedInputs :: "'p client \<Rightarrow> 'p client" where
  "applyDelayedInputs s =
     (case delayedInputs s of
        None \<Rightarrow> s
      | Some bs \<Rightarrow>
          (let delayed = (case bs of [] \<Rightarrow> [] | b # _ \<Rightarrow> b);
               s1 = foldl (\<lambda>t m. doInputLocal m t) (s\<lparr>delayedInputs := Some (tl bs)\<rparr>) delayed
           in s1\<lparr>delayedInputs := Some (tl bs @ [[]])\<rparr>))"

text \<open>The message that \<open>sendInput\<close> builds from the engine's state.\<close>

definition newMessage :: "string \<Rightarrow> string option \<Rightarrow> 'p client \<Rightarrow> message" where
  "newMessage inp inpOptions s =
     \<lparr> command = ''move'',
       data = \<lparr> d_messageIndex = messageIndex s, d_step = world_stepCount s,
                d_input = inp, d_options = inpOptions \<rparr> \<rparr>"

text \<open>
  \<open>sendInput\<close>: with a delay buffer the message is pushed onto its last batch (which
  raises when the buffer has no batch at all), otherwise it is applied at once; then it is
  queued for sending and the message index is incremented as a double (a missing index
  stays missing).
\<close>

definition sendInput :: "string \<Rightarrow> string option \<Rightarrow> 'p client \<Rightarrow> error + 'p client" where
  "sendInput inp inpOptions s =
     (let m = newMessage inp inpOptions s in
      case (case delayedInputs s of
              Some bs \<Rightarrow>
                (if bs = [] then Inl TypeError
                 else Inr (s\<lparr>delayedInputs := Some (butlast bs @ [last bs @ [m]])\<rparr>))
            | None \<Rightarrow> Inr (doInputLocal m s)) of
        Inl e \<Rightarrow> Inl e
      | Inr s1 \<Rightarrow>
          Inr (s1\<lparr>outboundMessages := outboundMessages s1 @ [m],
                   messageIndex := map_option (\<lambda>n. toDouble (n + 1)) (messageIndex s1)\<rparr>))"

text \<open>
  \<open>handleOutboundInput\<close>: the loop over the index \<open>x\<close>, one \<open>socket.emit\<close> per queued
  message, then the queue is replaced by an empty one.
\<close>

definition socket_emit :: "string \<Rightarrow> inputData \<Rightarrow> 'p client \<Rightarrow> 'p client" where
  "socket_emit c d s = s\<lparr>emitted := emitted s @ [(c, d)]\<rparr>"

function outboundLoop :: "nat \<Rightarrow> 'p client \<Rightarrow> 'p client" where
  "outboundLoop x s =
     (if x < length (outboundMessages s)
      then outboundLoop (x + 1)
             (socket_emit (command (outboundMessages s ! x)) (data (outboundMessages s ! x)) s)
      else s)"
  by pat_completeness auto
termination
  by (relation "measure (\<lambda>(x, s). length (outboundMessages s) - x)")
     (auto simp: socket_emit_def)

declare outboundLoop.simps [simp del]

definition handleOutboundInput :: "'p client \<Rightarrow> 'p client" where
  "handleOutboundInput s = (outboundLoop 0 s)\<lparr>outboundMessages := []\<rparr>"

section \<open>The tick\<close>

text \<open>
  The drift check of \<open>step\<close>, for a threshold \<open>T\<close>; \<open>step\<close> runs it with the constant.
  \<open>clientAhead\<close> and \<open>clientBehind\<close> are the two comparisons, read once \<open>serverStep\<close> has
  passed the truthiness test.
\<close>

definition clientAhead :: "int \<Rightarrow> 'p client \<Rightarrow> bool" where
  "clientAhead T s = (world_stepCount s > the (serverStep s) + T)"

definition clientBehind :: "int \<Rightarrow> 'p client \<Rightarrow> bool" where
  "clientBehind T s = (the (serverStep s) > world_stepCount s + T)"

definition checkDrift :: "int \<Rightarrow> 'p client \<Rightarrow> 'p client" where
  "checkDrift T s =
     (if truthy (serverStep s)
      then (if clientAhead T s then s\<lparr>skipOneStep := True\<rparr>
            else if clientBehind T s then s\<lparr>doubleStep := True\<rparr>
            else s)
      else s)"

text \<open>
  Modelled from the spec: \<open>gameEngine.step()\<close> belongs to the game engine, which is not
  part of this file; the spec has it advance the simulation by exactly one logical step.
\<close>

definition gameEngine_step :: "'p client \<Rightarrow> 'p client" where
  "gameEngine_step s = s\<lparr>world_stepCount := world_stepCount s + 1\<rparr>"

text \<open>
  \<open>step\<close>: the trace's step is set first; a requested skip clears the flag and returns;
  otherwise the inbound queue is drained, drift is checked, queued input is sent, delayed
  input is applied and the game engine steps. Listeners of the notifications that \<open>step\<close>
  emits and the diagnostic trace are outside this file; what a listener does to the engine
  (issuing input on \<open>client.preStep\<close>) is an action of its own between calls.
\<close>

definition tickBody :: "'p client \<Rightarrow> 'p client" where
  "tickBody s =
     gameEngine_step
       (applyDelayedInputs
          (handleOutboundInput
             (checkDrift STEP_DRIFT_THRESHOLD (drainInbound s))))"

definition step :: "'p client \<Rightarrow> 'p client" where
  "step s =
     (let s0 = s\<lparr>traceStep := world_stepCount s + 1\<rparr>
      in if skipOneStep s0 then s0\<lparr>skipOneStep := False\<rparr> else tickBody s0)"

section \<open>Runs\<close>

text \<open>
  What can happen to a client engine between and including ticks: a \<open>worldUpdate\<close> or
  \<open>playerJoined\<close> from the socket, an input from the user, a tick of the game loop, and
  the synchronization strategy writing \<open>gameEngine.serverStep\<close>.
\<close>

datatype 'p action =
    WorldUpdate 'p
  | PlayerJoined int
  | SendInput string "string option"
  | Step
  | ServerStep "int option"

fun act :: "'p action \<Rightarrow> 'p client \<Rightarrow> error + 'p client" where
  "act (WorldUpdate p) s = Inr (worldUpdate p s)"
| "act (PlayerJoined pid) s = Inr (playerJoined pid s)"
| "act (SendInput i opts) s = sendInput i opts s"
| "act Step s = Inr (step s)"
| "act (ServerStep v) s = Inr (s\<lparr>serverStep := v\<rparr>)"

fun run :: "'p action list \<Rightarrow> 'p client \<Rightarrow> error + 'p client" where
  "run [] s = Inr s"
| "run (a # as) s = (case act a s of Inl e \<Rightarrow> Inl e | Inr s1 \<Rightarrow> run as s1)"

text \<open>
  The messages that a run issues, in issuance order: one per call of \<open>sendInput\<close> that
  returns (a call that raises queues, applies and sends nothing, and ends the run).
\<close>

fun issued :: "'p action list \<Rightarrow> 'p client \<Rightarrow> message list" where
  "issued [] s = []"
| "issued (a # as) s =
     (case act a s of
        Inl e \<Rightarrow> []
      | Inr s1 \<Rightarrow>
          (case a of SendInput i opts \<Rightarrow> [newMessage i opts s] | _ \<Rightarrow> []) @ issued as s1)"

text \<open>Several inputs issued in a row.\<close>

fun sendInputs :: "(string \<times> string option) list \<Rightarrow> 'p client \<Rightarrow> error + 'p client" where
  "sendInputs [] s = Inr s"
| "sendInputs (i # is) s =
     (case sendInput (fst i) (snd i) s of Inl e \<Rightarrow> Inl e | Inr s1 \<Rightarrow> sendInputs is s1)"

section \<open>Reference definitions and sample inputs\<close>

text \<open>
  The authoritative step of a payload in the words of the specification: the maximum
  \<open>stepCount\<close> over the events that carry one, and \<open>0\<close> when none does.
\<close>

definition spec_maxStepCount :: "syncEvent list \<Rightarrow> int" where
  "spec_maxStepCount evs =
     (let carried = List.map_filter stepCount evs
      in if carried = [] then 0 else Max (set carried))"

text \<open>The projection of a message to what \<open>socket.emit\<close> is called with.\<close>

definition wire :: "message \<Rightarrow> string \<times> inputData" where
  "wire m = (command m, data m)"

text \<open>The input and options that a processed or queued message came from.\<close>

definition issuance :: "inputData \<Rightarrow> string \<times> string option" where
  "issuance d = (d_input d, d_options d)"

text \<open>A delay buffer on which \<open>sendInput\<close> does not raise: none, or one with a batch.\<close>

definition bufferReady :: "'p client \<Rightarrow> bool" where
  "bufferReady s = (delayedInputs s \<noteq> Some [])"

text \<open>Sample collaborators and a sample client, payloads being already decoded.\<close>

definition freshSynchronizer :: "syncOptions \<Rightarrow> unit synchronizer" where
  "freshSynchronizer so =
     \<lparr> extrapolateObjectSelector = None, interpolateObjectSelector = None,
       frameSyncSelector = None \<rparr>"

definition sampleEngine :: gameEngine where
  "sampleEngine = \<lparr> ge_stepCount = 0, ge_serverStep = None, ge_passive = False \<rparr>"

definition sampleOptions :: "int option \<Rightarrow> inputOptions" where
  "sampleOptions d =
     \<lparr> delayInputCount = d,
       opt_syncOptions = Some \<lparr> sync = ''interpolate'', reflect = False \<rparr> \<rparr>"

definition sampleClient :: "int option \<Rightarrow> syncEvent list client" where
  "sampleClient d =
     initialFields (\<lambda>p. p) sampleEngine (sampleOptions d)
       \<lparr> sync = ''interpolate'', reflect = False \<rparr>"

text \<open>
  The sync modes the configuration recognizes, and the number of selectors that are
  assigned on a synchronizer.
\<close>

definition recognizedMode :: "string \<Rightarrow> bool" where
  "recognizedMode m =
     (m = ''extrapolate'' \<or> m = ''interpolate'' \<or> m = ''frameSync'' \<or> m = ''reflect'')"

definition activeSelectors :: "'o synchronizer \<Rightarrow> nat" where
  "activeSelectors syn =
     (if extrapolateObjectSelector syn = None then 0 else 1)
     + (if interpolateObjectSelector syn = None then 0 else 1)
     + (if frameSyncSelector syn = None then 0 else 1)"

text \<open>
  A run in which the identity is not assigned again, and the sequence numbers that a list
  of messages carries.
\<close>

definition noRejoin :: "'p action list \<Rightarrow> bool" where
  "noRejoin acts = list_all (\<lambda>a. case a of PlayerJoined _ \<Rightarrow> False | _ \<Rightarrow> True) acts"

definition sequenceNumbers :: "message list \<Rightarrow> int option list" where
  "sequenceNumbers ms = map (\<lambda>m. d_messageIndex (data m)) ms"

text \<open>The inputs that the actions of a run issue, in order.\<close>

definition inputsOf :: "'p action list \<Rightarrow> (string \<times> string option) list" where
  "inputsOf acts =
     concat (map (\<lambda>a. case a of SendInput i opts \<Rightarrow> [(i, opts)] | _ \<Rightarrow> []) acts)"

text \<open>The inputs that have been applied to the local simulation, and those of a batch.\<close>

definition appliedInputs :: "'p client \<Rightarrow> (string \<times> string option) list" where
  "appliedInputs s = map (\<lambda>e. issuance (fst e)) (processed s)"

definition batchInputs :: "message list \<Rightarrow> (string \<times> string option) list" where
  "batchInputs ms = map (\<lambda>m. issuance (data m)) ms"

text \<open>
  The loop of \<open>handleOutboundInput\<close> when input is issued while it runs. Nothing in this
  file does so, but \<open>socket.emit\<close> is a call into a collaborator, and a listener it runs
  could call \<open>sendInput\<close> before the loop goes on: \<open>during\<close> holds, per iteration, the
  inputs issued while that iteration's \<open>emit\<close> runs. The loop reads the length of the queue
  at every iteration.
\<close>

function outboundLoopDuring ::
  "nat \<Rightarrow> (string \<times> string option) list list \<Rightarrow> 'p client \<Rightarrow> error + 'p client"
where
  "outboundLoopDuring x during s =
     (if x < length (outboundMessages s)
      then (case sendInputs (case during of [] \<Rightarrow> [] | d # _ \<Rightarrow> d)
                   (socket_emit (command (outboundMessages s ! x))
                      (data (outboundMessages s ! x)) s) of
              Inl e \<Rightarrow> Inl e
            | Inr s1 \<Rightarrow> outboundLoopDuring (x + 1) (tl during) s1)
      else Inr s)"
  by pat_completeness auto
termination
proof (relation "measure (\<lambda>(x, during, s). length (outboundMessages s) + length (concat during) - x)",
    goal_cases)
  case 1
  show ?case by simp
next
  case (2 x during s s1)
  have len: "length (outboundMessages t') = length (outboundMessages t) + length b"
    if "sendInputs b t = Inr t'" for b and t t' :: "'p client"
    using that
  proof (induction b arbitrary: t)
    case Nil
    then show ?case by simp
  next
    case (Cons i b)
    then obtain u where u: "sendInput (fst i) (snd i) t = Inr u" "sendInputs b u = Inr t'"
      by (auto split: sum.splits)
    have "length (outboundMessages u) = length (outboundMessages t) + 1"
      using u(1)
      by (auto simp: sendInput_def Let_def doInputLocal_def split: option.splits if_splits)
    then show ?case using Cons.IH[OF u(2)] by simp
  qed
  have "length (outboundMessages s1) =
        length (outboundMessages s) + length (case during of [] \<Rightarrow> [] | d # _ \<Rightarrow> d)"
    using len[OF 2(2)] by (simp add: socket_emit_def)
  moreover have "length (concat during) =
        length (case during of [] \<Rightarrow> [] | d # _ \<Rightarrow> d) + length (concat (tl during))"
    by (cases during) simp_all
  ultimately show ?case using 2(1) by simp
qed

declare outboundLoopDuring.simps [simp del]

definition handleOutboundInputDuring ::
  "(string \<times> string option) list list \<Rightarrow> 'p client \<Rightarrow> error + 'p client"
where
  "handleOutboundInputDuring during s =
     (case outboundLoopDuring 0 during s of
        Inl e \<Rightarrow> Inl e
      | Inr s1 \<Rightarrow> Inr (s1\<lparr>outboundMessages := []\<rparr>))"

text \<open>
  A player identifier whose namespace of \<open>10000\<close> numbers, and the increment past its last
  number, are integers that a double holds exactly.
\<close>

definition exactNamespace :: "int \<Rightarrow> bool" where
  "exactNamespace p = (\<bar>p\<bar> * 10000 + 10000 \<le> 2 ^ 53)"

text \<open>
  The inputs issued for each tick of a run, in order: the inputs issued since the tick
  before (\<open>cur\<close> holds those issued before the run starts) up to the tick's own call of
  \<open>step\<close>; and the inputs issued since the last tick of the run.
\<close>

fun perTick ::
  "(string \<times> string option) list \<Rightarrow> 'p action list \<Rightarrow> (string \<times> string option) list list"
where
  "perTick cur [] = []"
| "perTick cur (Step # as) = cur # perTick [] as"
| "perTick cur (SendInput i opts # as) = perTick (cur @ [(i, opts)]) as"
| "perTick cur (a # as) = perTick cur as"

fun pendingInputs ::
  "(string \<times> string option) list \<Rightarrow> 'p action list \<Rightarrow> (string \<times> string option) list"
where
  "pendingInputs cur [] = cur"
| "pendingInputs cur (Step # as) = pendingInputs [] as"
| "pendingInputs cur (SendInput i opts # as) = pendingInputs (cur @ [(i, opts)]) as"
| "pendingInputs cur (a # as) = pendingInputs cur as"

text \<open>A run in which no call of \<open>step\<close> finds the skip flag set: no tick is skipped for drift.\<close>

fun unskipped :: "'p action list \<Rightarrow> 'p client \<Rightarrow> bool" where
  "unskipped [] s = True"
| "unskipped (a # as) s =
     ((case a of Step \<Rightarrow> \<not> skipOneStep s | _ \<Rightarrow> True)
      \<and> (case act a s of Inl e \<Rightarrow> True | Inr s1 \<Rightarrow> unskipped as s1))"

section \<open>Helper lemmas\<close>

lemma stepReducer_None: "stepCount e = None \<Longrightarrow> stepReducer a e = a"
  by (simp add: stepReducer_def truthy_def)

lemma stepReducer_zero: "stepCount e = Some 0 \<Longrightarrow> stepReducer a e = a"
  by (simp add: stepReducer_def truthy_def)

lemma stepReducer_Some: "stepCount e = Some n \<Longrightarrow> n \<noteq> 0 \<Longrightarrow> stepReducer a e = max a n"
  by (simp add: stepReducer_def truthy_def)

lemma foldl_stepReducer:
  "0 \<le> a \<Longrightarrow> (\<forall>e\<in>set evs. \<forall>n. stepCount e = Some n \<longrightarrow> 0 \<le> n) \<Longrightarrow>
   foldl stepReducer a evs = Max (insert a (set (List.map_filter stepCount evs)))"
proof (induction evs arbitrary: a)
  case Nil
  then show ?case by (simp add: List.map_filter_simps)
next
  case (Cons e evs)
  let ?S = "set (List.map_filter stepCount evs)"
  have fin: "finite ?S" by simp
  have rest: "\<forall>e\<in>set evs. \<forall>n. stepCount e = Some n \<longrightarrow> 0 \<le> n"
    using Cons.prems(2) by simp
  show ?case
  proof (cases "stepCount e")
    case None
    then show ?thesis
      using Cons.IH[OF Cons.prems(1) rest]
      by (simp add: List.map_filter_simps stepReducer_None)
  next
    case (Some n)
    then have n0: "0 \<le> n" using Cons.prems(2) by simp
    have ins: "Max (insert (max a n) ?S) = Max (insert a (insert n ?S))"
      using fin by (cases "?S = {}") (auto simp: max.assoc)
    show ?thesis
    proof (cases "n = 0")
      case True
      then have "foldl stepReducer a (e # evs) = Max (insert a ?S)"
        using Cons.IH[OF Cons.prems(1) rest] Some by (simp add: stepReducer_zero)
      also have "\<dots> = Max (insert (max a n) ?S)"
        using True Cons.prems(1) by (simp add: max_def)
      finally show ?thesis using Some ins by (simp add: List.map_filter_simps)
    next
      case False
      have "0 \<le> max a n" using n0 by simp
      from Cons.IH[OF this rest] have "foldl stepReducer a (e # evs) = Max (insert (max a n) ?S)"
        using Some False by (simp add: stepReducer_Some)
      then show ?thesis using Some ins by (simp add: List.map_filter_simps)
    qed
  qed
qed

lemma drainInbound_fold_aux:
  "inboundMessages s = xs \<Longrightarrow>
   drainInbound s = foldl (\<lambda>t p. handleInboundMessage p t) (s\<lparr>inboundMessages := []\<rparr>) (rev xs)"
proof (induction xs arbitrary: s rule: rev_induct)
  case Nil
  then show ?case by (subst drainInbound.simps) simp
next
  case (snoc x xs)
  have e: "(handleInboundMessage x (s\<lparr>inboundMessages := xs\<rparr>))\<lparr>inboundMessages := []\<rparr>
           = handleInboundMessage x (s\<lparr>inboundMessages := []\<rparr>)"
    by (simp add: handleInboundMessage_def Let_def)
  have i: "inboundMessages (handleInboundMessage x (s\<lparr>inboundMessages := xs\<rparr>)) = xs"
    by (simp add: handleInboundMessage_def Let_def)
  have "drainInbound s = drainInbound (handleInboundMessage x (s\<lparr>inboundMessages := xs\<rparr>))"
    using snoc.prems by (subst drainInbound.simps) simp
  then show ?case using snoc.IH[OF i] e by simp
qed

lemma outboundLoop_closed:
  "outboundLoop x s = s\<lparr>emitted := emitted s @ map wire (drop x (outboundMessages s))\<rparr>"
proof (induction x s rule: outboundLoop.induct)
  case (1 x s)
  show ?case
  proof (cases "x < length (outboundMessages s)")
    case True
    let ?s1 = "socket_emit (command (outboundMessages s ! x)) (data (outboundMessages s ! x)) s"
    have o: "outboundMessages ?s1 = outboundMessages s" by (simp add: socket_emit_def)
    have "outboundLoop x s = outboundLoop (x + 1) ?s1"
      using True by (subst outboundLoop.simps) simp
    also have "\<dots> = ?s1\<lparr>emitted := emitted ?s1 @ map wire (drop (x + 1) (outboundMessages ?s1))\<rparr>"
      using 1 True by simp
    also have "\<dots> = s\<lparr>emitted := emitted s @ map wire (drop x (outboundMessages s))\<rparr>"
      using True by (simp add: socket_emit_def wire_def Cons_nth_drop_Suc[symmetric])
    finally show ?thesis .
  next
    case False
    then show ?thesis by (subst outboundLoop.simps) simp
  qed
qed

lemma handleOutboundInput_closed:
  "handleOutboundInput s =
     s\<lparr>emitted := emitted s @ map wire (outboundMessages s), outboundMessages := []\<rparr>"
  by (simp add: handleOutboundInput_def outboundLoop_closed)

lemma foldl_doInputLocal:
  "foldl (\<lambda>t m. doInputLocal m t) s ms =
     (if gameEngine_passive s then s
      else s\<lparr>processed := processed s @ map (\<lambda>m. (data m, playerId s)) ms\<rparr>)"
  by (induction ms arbitrary: s) (auto simp: doInputLocal_def)

lemma applyDelayedInputs_closed:
  "applyDelayedInputs s =
     (case delayedInputs s of
        None \<Rightarrow> s
      | Some bs \<Rightarrow>
          s\<lparr>processed :=
               (if gameEngine_passive s then processed s
                else processed s @ map (\<lambda>m. (data m, playerId s)) (case bs of [] \<Rightarrow> [] | b # _ \<Rightarrow> b)),
            delayedInputs := Some (tl bs @ [[]])\<rparr>)"
  by (simp add: applyDelayedInputs_def foldl_doInputLocal Let_def split: option.splits)

lemma handle_fields [simp]:
  "inboundMessages (handleInboundMessage p s) = inboundMessages s"
  "outboundMessages (handleInboundMessage p s) = outboundMessages s"
  "delayedInputs (handleInboundMessage p s) = delayedInputs s"
  "deserializePayload (handleInboundMessage p s) = deserializePayload s"
  "skipOneStep (handleInboundMessage p s) = skipOneStep s"
  "doubleStep (handleInboundMessage p s) = doubleStep s"
  "serverStep (handleInboundMessage p s) = serverStep s"
  "gameEngine_passive (handleInboundMessage p s) = gameEngine_passive s"
  "emitted (handleInboundMessage p s) = emitted s"
  "processed (handleInboundMessage p s) = processed s"
  "playerId (handleInboundMessage p s) = playerId s"
  "messageIndex (handleInboundMessage p s) = messageIndex s"
  "traceStep (handleInboundMessage p s) = traceStep s"
  "options (handleInboundMessage p s) = options s"
  by (simp_all add: handleInboundMessage_def Let_def)

lemma handle_stepCount:
  "world_stepCount (handleInboundMessage p s) =
     max (world_stepCount s) (maxStepCount (deserializePayload s p))"
  by (simp add: handleInboundMessage_def Let_def max_def)

lemma handle_syncReceived:
  "syncReceived (handleInboundMessage p s) =
     syncReceived s @ [(deserializePayload s p, maxStepCount (deserializePayload s p))]"
  by (simp add: handleInboundMessage_def Let_def)

lemma fold_handle_fields [simp]:
  "inboundMessages (foldl (\<lambda>t p. handleInboundMessage p t) s ps) = inboundMessages s"
  "outboundMessages (foldl (\<lambda>t p. handleInboundMessage p t) s ps) = outboundMessages s"
  "delayedInputs (foldl (\<lambda>t p. handleInboundMessage p t) s ps) = delayedInputs s"
  "deserializePayload (foldl (\<lambda>t p. handleInboundMessage p t) s ps) = deserializePayload s"
  "skipOneStep (foldl (\<lambda>t p. handleInboundMessage p t) s ps) = skipOneStep s"
  "doubleStep (foldl (\<lambda>t p. handleInboundMessage p t) s ps) = doubleStep s"
  "serverStep (foldl (\<lambda>t p. handleInboundMessage p t) s ps) = serverStep s"
  "gameEngine_passive (foldl (\<lambda>t p. handleInboundMessage p t) s ps) = gameEngine_passive s"
  "emitted (foldl (\<lambda>t p. handleInboundMessage p t) s ps) = emitted s"
  "processed (foldl (\<lambda>t p. handleInboundMessage p t) s ps) = processed s"
  "playerId (foldl (\<lambda>t p. handleInboundMessage p t) s ps) = playerId s"
  "messageIndex (foldl (\<lambda>t p. handleInboundMessage p t) s ps) = messageIndex s"
  "traceStep (foldl (\<lambda>t p. handleInboundMessage p t) s ps) = traceStep s"
  "options (foldl (\<lambda>t p. handleInboundMessage p t) s ps) = options s"
  by (induction ps arbitrary: s; simp)+

lemma fold_handle_stepCount_mono:
  "world_stepCount s \<le> world_stepCount (foldl (\<lambda>t p. handleInboundMessage p t) s ps)"
proof (induction ps arbitrary: s)
  case Nil show ?case by simp
next
  case (Cons p ps)
  have "world_stepCount s \<le> world_stepCount (handleInboundMessage p s)"
    by (simp add: handle_stepCount)
  also have "\<dots> \<le> world_stepCount (foldl (\<lambda>t p. handleInboundMessage p t) (handleInboundMessage p s) ps)"
    by (rule Cons.IH)
  finally show ?case by simp
qed

lemma fold_handle_syncReceived:
  "syncReceived (foldl (\<lambda>t p. handleInboundMessage p t) s ps) =
     syncReceived s @ map (\<lambda>p. (deserializePayload s p, maxStepCount (deserializePayload s p))) ps"
  by (induction ps arbitrary: s) (simp_all add: handle_syncReceived)

lemma drainInbound_fold:
  "drainInbound s =
     foldl (\<lambda>t p. handleInboundMessage p t) (s\<lparr>inboundMessages := []\<rparr>) (rev (inboundMessages s))"
  by (rule drainInbound_fold_aux) simp

lemma maxStepCount_filter:
  "foldl stepReducer a (filter (\<lambda>e. stepCount e \<noteq> None) evs) = foldl stepReducer a evs"
  by (induction evs arbitrary: a) (auto simp: stepReducer_None)

lemma foldl_stepReducer_allNone:
  "\<forall>e\<in>set evs. stepCount e = None \<Longrightarrow> foldl stepReducer a evs = a"
  by (induction evs arbitrary: a) (auto simp: stepReducer_None)

lemma step_skipped: "skipOneStep s \<Longrightarrow> step s = s\<lparr>traceStep := world_stepCount s + 1, skipOneStep := False\<rparr>"
  by (simp add: step_def Let_def)

lemma step_unskipped: "\<not> skipOneStep s \<Longrightarrow> step s = tickBody (s\<lparr>traceStep := world_stepCount s + 1\<rparr>)"
  by (simp add: step_def Let_def)

lemma checkDrift_fields [simp]:
  "inboundMessages (checkDrift T s) = inboundMessages s"
  "outboundMessages (checkDrift T s) = outboundMessages s"
  "delayedInputs (checkDrift T s) = delayedInputs s"
  "deserializePayload (checkDrift T s) = deserializePayload s"
  "serverStep (checkDrift T s) = serverStep s"
  "gameEngine_passive (checkDrift T s) = gameEngine_passive s"
  "emitted (checkDrift T s) = emitted s"
  "processed (checkDrift T s) = processed s"
  "playerId (checkDrift T s) = playerId s"
  "messageIndex (checkDrift T s) = messageIndex s"
  "traceStep (checkDrift T s) = traceStep s"
  "world_stepCount (checkDrift T s) = world_stepCount s"
  "syncReceived (checkDrift T s) = syncReceived s"
  by (simp_all add: checkDrift_def)

lemma tickBody_inbound: "inboundMessages (tickBody s) = []"
  by (simp add: tickBody_def gameEngine_step_def applyDelayedInputs_closed
      handleOutboundInput_closed drainInbound_fold split: option.splits)

lemma tickBody_syncReceived:
  "syncReceived (tickBody s) = syncReceived (drainInbound s)"
  by (simp add: tickBody_def gameEngine_step_def applyDelayedInputs_closed
      handleOutboundInput_closed split: option.splits)

lemma tickBody_stepCount:
  "world_stepCount (tickBody s) = world_stepCount (drainInbound s) + 1"
  by (simp add: tickBody_def gameEngine_step_def applyDelayedInputs_closed
      handleOutboundInput_closed split: option.splits)

lemma tickBody_skip:
  "skipOneStep (tickBody s) = skipOneStep (checkDrift STEP_DRIFT_THRESHOLD (drainInbound s))"
  by (simp add: tickBody_def gameEngine_step_def applyDelayedInputs_closed
      handleOutboundInput_closed split: option.splits)

lemma tickBody_double:
  "doubleStep (tickBody s) = doubleStep (checkDrift STEP_DRIFT_THRESHOLD (drainInbound s))"
  by (simp add: tickBody_def gameEngine_step_def applyDelayedInputs_closed
      handleOutboundInput_closed split: option.splits)

lemma tickBody_serverStep: "serverStep (tickBody s) = serverStep s"
  by (simp add: tickBody_def gameEngine_step_def applyDelayedInputs_closed
      handleOutboundInput_closed drainInbound_fold split: option.splits)

lemma drainInbound_syncReceived:
  "syncReceived (drainInbound s) =
     syncReceived s @ map (\<lambda>p. (deserializePayload s p, maxStepCount (deserializePayload s p)))
                          (rev (inboundMessages s))"
  by (simp add: drainInbound_fold fold_handle_syncReceived)

lemma drainInbound_mono: "world_stepCount s \<le> world_stepCount (drainInbound s)"
  using fold_handle_stepCount_mono[of "s\<lparr>inboundMessages := []\<rparr>" "rev (inboundMessages s)"]
  by (simp add: drainInbound_fold)

lemma handle_traceStep_commute:
  "handleInboundMessage p (s\<lparr>traceStep := t\<rparr>) = (handleInboundMessage p s)\<lparr>traceStep := t\<rparr>"
  by (simp add: handleInboundMessage_def Let_def)

lemma fold_handle_traceStep_commute:
  "foldl (\<lambda>t p. handleInboundMessage p t) (s\<lparr>traceStep := t\<rparr>) ps =
   (foldl (\<lambda>t p. handleInboundMessage p t) s ps)\<lparr>traceStep := t\<rparr>"
  by (induction ps arbitrary: s) (simp_all add: handle_traceStep_commute)

lemma drainInbound_traceStep:
  "drainInbound (s\<lparr>traceStep := t\<rparr>) = (drainInbound s)\<lparr>traceStep := t\<rparr>"
proof -
  let ?f = "\<lambda>t p. handleInboundMessage p t"
  have eq: "(s\<lparr>traceStep := t\<rparr>)\<lparr>inboundMessages := []\<rparr> = (s\<lparr>inboundMessages := []\<rparr>)\<lparr>traceStep := t\<rparr>"
    by simp
  have "drainInbound (s\<lparr>traceStep := t\<rparr>) =
        foldl ?f ((s\<lparr>traceStep := t\<rparr>)\<lparr>inboundMessages := []\<rparr>) (rev (inboundMessages s))"
    using drainInbound_fold[of "s\<lparr>traceStep := t\<rparr>"] by simp
  also have "\<dots> = (foldl ?f (s\<lparr>inboundMessages := []\<rparr>) (rev (inboundMessages s)))\<lparr>traceStep := t\<rparr>"
    unfolding eq by (rule fold_handle_traceStep_commute)
  also have "\<dots> = (drainInbound s)\<lparr>traceStep := t\<rparr>"
    using drainInbound_fold[of s] by simp
  finally show ?thesis .
qed

lemma run_worldUpdates:
  "run (map WorldUpdate ps) s = Inr (s\<lparr>inboundMessages := inboundMessages s @ ps\<rparr>)"
  by (induction ps arbitrary: s) (simp_all add: worldUpdate_def)

lemma sendInput_delayed:
  "delayedInputs s = Some bs \<Longrightarrow> bs \<noteq> [] \<Longrightarrow>
   sendInput i opts s =
     Inr (s\<lparr>outboundMessages := outboundMessages s @ [newMessage i opts s],
            delayedInputs := Some (butlast bs @ [last bs @ [newMessage i opts s]]),
            messageIndex := map_option (\<lambda>n. toDouble (n + 1)) (messageIndex s)\<rparr>)"
  by (simp add: sendInput_def Let_def)

lemma sendInput_immediate:
  "delayedInputs s = None \<Longrightarrow>
   sendInput i opts s =
     Inr (s\<lparr>outboundMessages := outboundMessages s @ [newMessage i opts s],
            messageIndex := map_option (\<lambda>n. toDouble (n + 1)) (messageIndex s),
            processed := (if gameEngine_passive s then processed s
                          else processed s @ [(data (newMessage i opts s), playerId s)])\<rparr>)"
  by (simp add: sendInput_def Let_def doInputLocal_def)

lemma sendInput_total:
  assumes "bufferReady s"
  shows "\<exists>s'. sendInput i opts s = Inr s' \<and> bufferReady s'
           \<and> world_stepCount s' = world_stepCount s
           \<and> outboundMessages s' = outboundMessages s @ [newMessage i opts s]
           \<and> emitted s' = emitted s"
proof (cases "delayedInputs s")
  case None
  then show ?thesis by (simp add: sendInput_immediate bufferReady_def)
next
  case (Some bs)
  then have "bs \<noteq> []" using assms by (simp add: bufferReady_def)
  then show ?thesis using Some by (simp add: sendInput_delayed bufferReady_def)
qed

lemma tickBody_delayedInputs:
  "delayedInputs (tickBody s) =
     (case delayedInputs s of None \<Rightarrow> None | Some bs \<Rightarrow> Some (tl bs @ [[]]))"
  by (simp add: tickBody_def gameEngine_step_def applyDelayedInputs_closed
      handleOutboundInput_closed drainInbound_fold split: option.splits)

lemma step_bufferReady: "bufferReady s \<Longrightarrow> bufferReady (step s)"
  by (cases "skipOneStep s")
     (simp_all add: step_skipped step_unskipped bufferReady_def tickBody_delayedInputs
        split: option.splits)

lemma step_mono: "world_stepCount s \<le> world_stepCount (step s)"
proof (cases "skipOneStep s")
  case True
  then show ?thesis by (simp add: step_skipped)
next
  case False
  have "world_stepCount s \<le> world_stepCount (drainInbound s)" by (rule drainInbound_mono)
  then show ?thesis using False
    by (simp add: step_unskipped tickBody_stepCount drainInbound_traceStep)
qed

lemma act_total:
  assumes "bufferReady s"
  shows "\<exists>s'. act a s = Inr s' \<and> bufferReady s' \<and> world_stepCount s \<le> world_stepCount s'"
proof (cases a)
  case (SendInput i opts)
  then show ?thesis using sendInput_total[OF assms, of i opts] by auto
next
  case Step
  then show ?thesis using step_bufferReady[OF assms] step_mono[of s] by simp
qed (use assms in \<open>simp_all add: bufferReady_def worldUpdate_def playerJoined_def\<close>)

lemma run_total:
  "bufferReady s \<Longrightarrow>
   \<exists>s'. run acts s = Inr s' \<and> bufferReady s' \<and> world_stepCount s \<le> world_stepCount s'"
proof (induction acts arbitrary: s)
  case Nil
  then show ?case by simp
next
  case (Cons a acts)
  from act_total[OF Cons.prems, of a] obtain s1 where
    s1: "act a s = Inr s1" "bufferReady s1" "world_stepCount s \<le> world_stepCount s1" by blast
  from Cons.IH[OF s1(2)] obtain s' where
    "run acts s1 = Inr s'" "bufferReady s'" "world_stepCount s1 \<le> world_stepCount s'" by blast
  then show ?case using s1 by auto
qed

lemma run_append:
  "run (as1 @ as2) s = (case run as1 s of Inl e \<Rightarrow> Inl e | Inr s1 \<Rightarrow> run as2 s1)"
  by (induction as1 arbitrary: s) (simp_all split: sum.splits)

lemma drainInbound_flags [simp]:
  "skipOneStep (drainInbound s) = skipOneStep s"
  "doubleStep (drainInbound s) = doubleStep s"
  "serverStep (drainInbound s) = serverStep s"
  by (simp_all add: drainInbound_fold)

lemma step_messageIndex: "messageIndex (step s) = messageIndex s"
  by (cases "skipOneStep s")
     (simp_all add: step_skipped step_unskipped tickBody_def gameEngine_step_def
        applyDelayedInputs_closed handleOutboundInput_closed drainInbound_fold
        split: option.splits)

lemma sendInput_messageIndex:
  "sendInput i opts s = Inr s' \<Longrightarrow> messageIndex s' = map_option (\<lambda>n. toDouble (n + 1)) (messageIndex s)"
  by (auto simp: sendInput_def Let_def doInputLocal_def split: option.splits if_splits)

lemma issued_replicate_length:
  "bufferReady s \<Longrightarrow> length (issued (replicate n (SendInput i opts)) s) = n"
proof (induction n arbitrary: s)
  case 0
  then show ?case by simp
next
  case (Suc n)
  from sendInput_total[OF Suc.prems, of i opts] obtain s' where
    "sendInput i opts s = Inr s'" "bufferReady s'" by blast
  then show ?case using Suc.IH[of s'] by simp
qed

lemma namespaces_disjoint:
  fixes p q :: int and i j :: nat
  assumes "p \<noteq> q" "i < 10000" "j < 10000"
  shows "p * 10000 + int i \<noteq> q * 10000 + int j"
proof (cases "p < q")
  case True
  then have "p + 1 \<le> q" by simp
  then have "(p + 1) * 10000 \<le> q * 10000" by (rule mult_right_mono) simp
  then show ?thesis using assms(2) by (simp add: algebra_simps)
next
  case False
  then have "q + 1 \<le> p" using assms(1) by simp
  then have "(q + 1) * 10000 \<le> p * 10000" by (rule mult_right_mono) simp
  then show ?thesis using assms(3) by (simp add: algebra_simps)
qed

lemma bufferReady_playerJoined: "bufferReady (playerJoined p s) = bufferReady s"
  by (simp add: bufferReady_def playerJoined_def)

lemma bufferReady_sampleClient: "bufferReady (sampleClient (Some 3))" "bufferReady (sampleClient None)"
  by (simp_all add: bufferReady_def sampleClient_def initialFields_def sampleOptions_def truthy_def)

lemma issued_inputs:
  "bufferReady s \<Longrightarrow> map (\<lambda>m. issuance (data m)) (issued acts s) = inputsOf acts"
proof (induction acts arbitrary: s)
  case Nil
  then show ?case by (simp add: inputsOf_def)
next
  case (Cons a acts)
  from act_total[OF Cons.prems, of a] obtain s1 where
    s1: "act a s = Inr s1" "bufferReady s1" by blast
  have "map (\<lambda>m. issuance (data m)) (issued acts s1) = inputsOf acts"
    by (rule Cons.IH[OF s1(2)])
  then show ?case using s1(1)
    by (cases a) (simp_all add: inputsOf_def newMessage_def issuance_def)
qed

lemma drainInbound_queues [simp]:
  "outboundMessages (drainInbound s) = outboundMessages s"
  "emitted (drainInbound s) = emitted s"
  "delayedInputs (drainInbound s) = delayedInputs s"
  "processed (drainInbound s) = processed s"
  "gameEngine_passive (drainInbound s) = gameEngine_passive s"
  "playerId (drainInbound s) = playerId s"
  by (simp_all add: drainInbound_fold)

lemma tickBody_emitted: "emitted (tickBody s) = emitted s @ map wire (outboundMessages s)"
  by (simp add: tickBody_def gameEngine_step_def applyDelayedInputs_closed
      handleOutboundInput_closed split: option.splits)

lemma tickBody_outbound: "outboundMessages (tickBody s) = []"
  by (simp add: tickBody_def gameEngine_step_def applyDelayedInputs_closed
      handleOutboundInput_closed split: option.splits)

lemma step_flush:
  "\<not> skipOneStep s \<Longrightarrow>
   emitted (step s) = emitted s @ map wire (outboundMessages s) \<and> outboundMessages (step s) = []"
  by (simp add: step_unskipped tickBody_emitted tickBody_outbound)

lemma step_stream:
  "emitted (step s) @ map wire (outboundMessages (step s)) =
   emitted s @ map wire (outboundMessages s)"
  by (cases "skipOneStep s") (simp_all add: step_skipped step_flush)

lemma act_stream:
  assumes "bufferReady s"
  shows "\<exists>s1. act a s = Inr s1 \<and> bufferReady s1
           \<and> emitted s1 @ map wire (outboundMessages s1) =
               emitted s @ map wire (outboundMessages s)
               @ map wire (case a of SendInput i opts \<Rightarrow> [newMessage i opts s] | _ \<Rightarrow> [])"
proof (cases a)
  case (SendInput i opts)
  then show ?thesis using sendInput_total[OF assms, of i opts] by auto
next
  case Step
  then show ?thesis using step_bufferReady[OF assms] step_stream[of s] by simp
qed (use assms in \<open>simp_all add: bufferReady_def worldUpdate_def playerJoined_def\<close>)

lemma run_stream:
  "bufferReady s \<Longrightarrow>
   \<exists>s'. run acts s = Inr s' \<and> bufferReady s'
        \<and> emitted s' @ map wire (outboundMessages s') =
            emitted s @ map wire (outboundMessages s) @ map wire (issued acts s)"
proof (induction acts arbitrary: s)
  case Nil
  then show ?case by simp
next
  case (Cons a acts)
  from act_stream[OF Cons.prems, of a] obtain s1 where
    s1: "act a s = Inr s1" "bufferReady s1"
        "emitted s1 @ map wire (outboundMessages s1) =
           emitted s @ map wire (outboundMessages s)
           @ map wire (case a of SendInput i opts \<Rightarrow> [newMessage i opts s] | _ \<Rightarrow> [])"
    by blast
  from Cons.IH[OF s1(2)] obtain s' where
    s': "run acts s1 = Inr s'" "bufferReady s'"
        "emitted s' @ map wire (outboundMessages s') =
           emitted s1 @ map wire (outboundMessages s1) @ map wire (issued acts s1)"
    by blast
  have "emitted s' @ map wire (outboundMessages s') =
        emitted s @ map wire (outboundMessages s) @ map wire (issued (a # acts) s)"
    using s1(1) s1(3) s'(3) by simp
  then show ?case using s1(1) s'(1,2) by simp
qed

lemma two_steps_flush:
  "outboundMessages (step (step s)) = []"
proof (cases "skipOneStep s")
  case True
  then have "\<not> skipOneStep (step s)" by (simp add: step_skipped)
  then show ?thesis by (simp add: step_flush)
next
  case False
  then have e: "outboundMessages (step s) = []" by (simp add: step_flush)
  show ?thesis
  proof (cases "skipOneStep (step s)")
    case True
    then show ?thesis using e by (simp add: step_skipped)
  next
    case False
    then show ?thesis by (simp add: step_flush)
  qed
qed

lemma concat_take_replicate_Nil:
  "concat (take k (replicate n [] @ xs)) = concat (take (k - n) xs)"
  by (induction n arbitrary: k) (simp_all add: take_Cons' split: nat.splits)

lemma constructor_fields:
  assumes "constructor newSyn deser ge opts = Inr c"
  shows "delayedInputs c =
           (if truthy (delayInputCount opts)
            then Some (replicate (nat (the (delayInputCount opts))) []) else None)"
    and "processed c = []" and "emitted c = []" and "outboundMessages c = []"
    and "skipOneStep c = False" and "gameEngine_passive c = ge_passive ge"
    and "serverStep c = ge_serverStep ge" and "world_stepCount c = ge_stepCount ge"
  using assms
  by (auto simp: constructor_def initialFields_def split: sum.splits prod.splits)

lemma constructor_sample:
  "constructor freshSynchronizer (\<lambda>p. p) sampleEngine (sampleOptions d) = Inr (sampleClient d)"
  by (simp add: constructor_def configureSynchronization_def rewriteReflect_def
      selectStrategy_def sampleClient_def sampleOptions_def Let_def)

lemma sendInputs_total:
  "bufferReady s \<Longrightarrow>
   \<exists>s1 ms. sendInputs b s = Inr s1 \<and> bufferReady s1
     \<and> outboundMessages s1 = outboundMessages s @ ms \<and> batchInputs ms = b
     \<and> emitted s1 = emitted s"
proof (induction b arbitrary: s)
  case Nil
  then show ?case by (simp add: batchInputs_def)
next
  case (Cons i b)
  from sendInput_total[OF Cons.prems, of "fst i" "snd i"] obtain u where
    u: "sendInput (fst i) (snd i) s = Inr u" "bufferReady u"
       "outboundMessages u = outboundMessages s @ [newMessage (fst i) (snd i) s]"
       "emitted u = emitted s"
    by blast
  from Cons.IH[OF u(2)] obtain s1 ms where
    s1: "sendInputs b u = Inr s1" "bufferReady s1"
        "outboundMessages s1 = outboundMessages u @ ms" "batchInputs ms = b"
        "emitted s1 = emitted u"
    by blast
  have "batchInputs (newMessage (fst i) (snd i) s # ms) = i # b"
    using s1(4) by (simp add: batchInputs_def newMessage_def issuance_def)
  moreover have "outboundMessages s1 = outboundMessages s @ (newMessage (fst i) (snd i) s # ms)"
    using s1(3) u(3) by simp
  moreover have "sendInputs (i # b) s = Inr s1" using u(1) s1(1) by simp
  ultimately show ?case using s1(2,5) u(4) by metis
qed

lemma outboundLoopDuring_sends_all:
  "bufferReady s \<Longrightarrow> x \<le> length (outboundMessages s) \<Longrightarrow>
   emitted s = E @ map wire (take x (outboundMessages s)) \<Longrightarrow>
   \<exists>s1 ms. outboundLoopDuring x during s = Inr s1
     \<and> outboundMessages s1 = outboundMessages s @ ms
     \<and> batchInputs ms = concat (take (length (outboundMessages s) + length ms - x) during)
     \<and> emitted s1 = E @ map wire (outboundMessages s @ ms)"
proof (induction x during s rule: outboundLoopDuring.induct)
  case (1 x during s)
  show ?case
  proof (cases "x < length (outboundMessages s)")
    case False
    then have "outboundLoopDuring x during s = Inr s"
      by (subst outboundLoopDuring.simps) simp
    moreover have "emitted s = E @ map wire (outboundMessages s @ [])"
      using False "1.prems"(2,3) by simp
    moreover have "batchInputs [] =
        concat (take (length (outboundMessages s) + length ([]::message list) - x) during)"
      using False by (simp add: batchInputs_def)
    ultimately show ?thesis by (metis append_Nil2)
  next
    case True
    let ?d = "case during of [] \<Rightarrow> [] | d # _ \<Rightarrow> d"
    let ?s0 = "socket_emit (command (outboundMessages s ! x)) (data (outboundMessages s ! x)) s"
    have r0: "bufferReady ?s0" using "1.prems"(1) by (simp add: bufferReady_def socket_emit_def)
    from sendInputs_total[OF r0, of ?d] obtain s1 ms where
      s1: "sendInputs ?d ?s0 = Inr s1" "bufferReady s1"
          "outboundMessages s1 = outboundMessages ?s0 @ ms" "batchInputs ms = ?d"
          "emitted s1 = emitted ?s0"
      by blast
    have o1: "outboundMessages s1 = outboundMessages s @ ms"
      using s1(3) by (simp add: socket_emit_def)
    have x1: "x + 1 \<le> length (outboundMessages s1)" using True o1 by simp
    have "take (x + 1) (outboundMessages s1) = take x (outboundMessages s) @ [outboundMessages s ! x]"
      using True o1 by (simp add: take_Suc_conv_app_nth)
    then have e1: "emitted s1 = E @ map wire (take (x + 1) (outboundMessages s1))"
      using s1(5) "1.prems"(3) by (simp add: socket_emit_def wire_def)
    from "1.IH"[OF True s1(1) s1(2) x1 e1] obtain s2 ms2 where
      s2: "outboundLoopDuring (x + 1) (tl during) s1 = Inr s2"
          "outboundMessages s2 = outboundMessages s1 @ ms2"
          "batchInputs ms2 =
             concat (take (length (outboundMessages s1) + length ms2 - (x + 1)) (tl during))"
          "emitted s2 = E @ map wire (outboundMessages s1 @ ms2)"
      by blast
    have l: "outboundLoopDuring x during s = Inr s2"
      using True s1(1) s2(1) by (subst outboundLoopDuring.simps) simp
    let ?n = "length (outboundMessages s) + length (ms @ ms2) - x"
    have n: "?n = Suc (length (outboundMessages s1) + length ms2 - (x + 1))"
      using True o1 by simp
    have b: "batchInputs (ms @ ms2) = concat (take ?n during)"
      unfolding n using s1(4) s2(3) by (cases during) (simp_all add: batchInputs_def)
    have "outboundMessages s2 = outboundMessages s @ (ms @ ms2)" using s2(2) o1 by simp
    moreover have "emitted s2 = E @ map wire (outboundMessages s @ (ms @ ms2))"
      using s2(4) o1 by simp
    ultimately show ?thesis using l b by blast
  qed
qed

lemma outboundLoopDuring_Nil: "outboundLoopDuring x [] s = Inr (outboundLoop x s)"
proof (induction x s rule: outboundLoop.induct)
  case (1 x s)
  show ?case
  proof (cases "x < length (outboundMessages s)")
    case True
    then show ?thesis using 1
      by (subst outboundLoopDuring.simps, subst outboundLoop.simps) simp
  next
    case False
    then show ?thesis
      by (subst outboundLoopDuring.simps, subst outboundLoop.simps) simp
  qed
qed

lemma handleOutboundInputDuring_sends_all:
  assumes "bufferReady s"
  shows "\<exists>s1 ms. handleOutboundInputDuring during s = Inr s1 \<and> outboundMessages s1 = []
     \<and> emitted s1 = emitted s @ map wire (outboundMessages s) @ map wire ms
     \<and> batchInputs ms = concat (take (length (outboundMessages s) + length ms) during)"
proof -
  from outboundLoopDuring_sends_all[OF assms, of 0 "emitted s" during] obtain s1 ms where
    "outboundLoopDuring 0 during s = Inr s1"
    "batchInputs ms = concat (take (length (outboundMessages s) + length ms - 0) during)"
    "emitted s1 = emitted s @ map wire (outboundMessages s @ ms)"
    by auto
  then show ?thesis
    by (intro exI[of _ "s1\<lparr>outboundMessages := []\<rparr>"] exI[of _ ms])
       (simp add: handleOutboundInputDuring_def)
qed

lemma handleOutboundInputDuring_Nil:
  "handleOutboundInputDuring [] s = Inr (handleOutboundInput s)"
  by (simp add: handleOutboundInputDuring_def outboundLoopDuring_Nil handleOutboundInput_def)

lemma constructor_bufferReady:
  assumes "constructor newSyn deser ge opts = Inr c"
    and "case delayInputCount opts of None \<Rightarrow> True | Some d \<Rightarrow> 0 \<le> d"
  shows "bufferReady c"
  using assms constructor_fields(1)[OF assms(1)]
  by (auto simp: bufferReady_def truthy_def split: option.splits if_splits)

lemma bitLength_eq: "2 ^ k \<le> n \<Longrightarrow> n < 2 ^ Suc k \<Longrightarrow> bitLength n = Suc k"
proof (induction k arbitrary: n)
  case 0
  then have "n = 1" by simp
  then show ?case by (simp add: bitLength.simps)
next
  case (Suc k)
  have "(0::nat) < 2 ^ Suc k" by simp
  then have n0: "n \<noteq> 0" using Suc.prems(1) by linarith
  have "2 ^ k \<le> n div 2" using Suc.prems(1) by simp
  moreover have "n div 2 < 2 ^ Suc k" using Suc.prems(2) by simp
  ultimately have "bitLength (n div 2) = Suc k" by (rule Suc.IH)
  then show ?case using n0 by (subst bitLength.simps) simp
qed

lemma toDouble_exact: "\<bar>n\<bar> \<le> 2 ^ 53 \<Longrightarrow> toDouble n = n"
  by (simp add: toDouble_def)

lemma issued_sequenceNumber:
  "messageIndex s = Some b \<Longrightarrow> noRejoin acts \<Longrightarrow> k < length (issued acts s) \<Longrightarrow>
   \<bar>b\<bar> \<le> 2 ^ 53 \<Longrightarrow> \<bar>b + int k\<bar> \<le> 2 ^ 53 \<Longrightarrow>
   sequenceNumbers (issued acts s) ! k = Some (b + int k)"
proof (induction acts arbitrary: s b k)
  case Nil
  then show ?case by simp
next
  case (Cons a acts)
  have nr: "noRejoin acts" using Cons.prems(2) by (simp add: noRejoin_def)
  show ?case
  proof (cases "act a s")
    case (Inl e)
    then show ?thesis using Cons.prems(3) by simp
  next
    case (Inr s1)
    show ?thesis
    proof (cases a)
      case (SendInput i opts)
      show ?thesis
      proof (cases k)
        case 0
        then show ?thesis using SendInput Inr Cons.prems(1)
          by (simp add: sequenceNumbers_def newMessage_def)
      next
        case (Suc k')
        have b1: "\<bar>b + 1\<bar> \<le> 2 ^ 53" using Cons.prems(4,5) Suc by simp
        have m1: "messageIndex s1 = Some (b + 1)"
          using SendInput Inr Cons.prems(1) sendInput_messageIndex[of i opts s s1]
            toDouble_exact[OF b1] by simp
        have l: "k' < length (issued acts s1)" using Cons.prems(3) SendInput Inr Suc by simp
        have e: "\<bar>b + 1 + int k'\<bar> \<le> 2 ^ 53" using Cons.prems(5) Suc by (simp add: add.assoc)
        from Cons.IH[OF m1 nr l b1 e] show ?thesis
          using SendInput Inr Suc by (simp add: sequenceNumbers_def add.assoc)
      qed
    next
      case (PlayerJoined pid)
      then show ?thesis using Cons.prems(2) by (simp add: noRejoin_def)
    next
      case (WorldUpdate p)
      then have m: "messageIndex s1 = Some b" using Inr Cons.prems(1) by (auto simp: worldUpdate_def)
      have l: "k < length (issued acts s1)" using Cons.prems(3) WorldUpdate Inr by simp
      from Cons.IH[OF m nr l Cons.prems(4,5)] show ?thesis using WorldUpdate Inr by simp
    next
      case Step
      then have m: "messageIndex s1 = Some b" using Inr Cons.prems(1) by (auto simp: step_messageIndex)
      have l: "k < length (issued acts s1)" using Cons.prems(3) Step Inr by simp
      from Cons.IH[OF m nr l Cons.prems(4,5)] show ?thesis using Step Inr by simp
    next
      case (ServerStep v)
      then have m: "messageIndex s1 = Some b" using Inr Cons.prems(1) by auto
      have l: "k < length (issued acts s1)" using Cons.prems(3) ServerStep Inr by simp
      from Cons.IH[OF m nr l Cons.prems(4,5)] show ?thesis using ServerStep Inr by simp
    qed
  qed
qed

lemma exactNamespace_bounds:
  assumes "exactNamespace p" and "i < 10000"
  shows "\<bar>p * 10000\<bar> \<le> 2 ^ 53" and "\<bar>p * 10000 + int i\<bar> \<le> 2 ^ 53"
  using assms by (simp_all add: exactNamespace_def abs_mult)

lemma playerJoined_base:
  "exactNamespace p \<Longrightarrow> messageIndex (playerJoined p s) = Some (p * 10000)"
  using exactNamespace_bounds(1)[of p 0] by (simp add: playerJoined_def toDouble_exact)

lemma issued_replicate_sequenceNumber:
  assumes "bufferReady s" and "messageIndex s = Some b" and "k < n"
    and "\<bar>b\<bar> \<le> 2 ^ 53" and "\<bar>b + int k\<bar> \<le> 2 ^ 53"
  shows "sequenceNumbers (issued (replicate n (SendInput i opts)) s) ! k = Some (b + int k)"
proof -
  have nr: "noRejoin (replicate n (SendInput i opts :: 'a action))"
    unfolding noRejoin_def list_all_iff by (auto simp: in_set_replicate)
  have l: "k < length (issued (replicate n (SendInput i opts)) s)"
    using issued_replicate_length[OF assms(1), of n i opts] assms(3) by simp
  show ?thesis by (rule issued_sequenceNumber[OF assms(2) nr l assms(4,5)])
qed

lemma clientAhead_drain_traceStep:
  "clientAhead T (drainInbound (s\<lparr>traceStep := t\<rparr>)) = clientAhead T (drainInbound s)"
  "clientBehind T (drainInbound (s\<lparr>traceStep := t\<rparr>)) = clientBehind T (drainInbound s)"
  by (simp_all add: clientAhead_def clientBehind_def drainInbound_traceStep)

lemma ahead_excludes_behind: "0 \<le> T \<Longrightarrow> \<not> (clientAhead T s \<and> clientBehind T s)"
  by (auto simp: clientAhead_def clientBehind_def)

lemma step_skipOneStep:
  "skipOneStep (step s) =
     (\<not> skipOneStep s \<and> truthy (serverStep s)
      \<and> clientAhead STEP_DRIFT_THRESHOLD (drainInbound s))"
proof (cases "skipOneStep s")
  case True
  then show ?thesis by (simp add: step_skipped)
next
  case False
  then show ?thesis
    by (simp add: step_unskipped tickBody_skip checkDrift_def clientAhead_drain_traceStep)
qed

lemma step_doubleStep:
  "doubleStep (step s) =
     (doubleStep s \<or> (\<not> skipOneStep s \<and> truthy (serverStep s)
        \<and> clientBehind STEP_DRIFT_THRESHOLD (drainInbound s)))"
proof (cases "skipOneStep s")
  case True
  then show ?thesis by (simp add: step_skipped)
next
  case False
  have "\<not> (clientAhead STEP_DRIFT_THRESHOLD (drainInbound s)
           \<and> clientBehind STEP_DRIFT_THRESHOLD (drainInbound s))"
    by (rule ahead_excludes_behind) (simp add: STEP_DRIFT_THRESHOLD_def)
  then show ?thesis using False
    by (auto simp: step_unskipped tickBody_double checkDrift_def clientAhead_drain_traceStep)
qed

lemma run_ticks: "run (replicate n Step) s = Inr ((step ^^ n) s)"
  by (induction n arbitrary: s) (simp_all add: funpow_swap1)

lemma plain_tick:
  assumes "inboundMessages s = []" and "\<not> skipOneStep s"
  shows "inboundMessages (step s) = []" and "serverStep (step s) = serverStep s"
    and "world_stepCount (step s) = world_stepCount s + 1"
proof -
  have d: "world_stepCount (drainInbound s) = world_stepCount s"
    using assms(1) by (simp add: drainInbound_fold)
  show "inboundMessages (step s) = []" using assms(2) by (simp add: step_unskipped tickBody_inbound)
  show "serverStep (step s) = serverStep s" using assms(2) by (simp add: step_unskipped tickBody_serverStep)
  show "world_stepCount (step s) = world_stepCount s + 1"
    using assms(2) d by (simp add: step_unskipped tickBody_stepCount drainInbound_traceStep)
qed

lemma lagging_ticks:
  assumes "inboundMessages s = []" and "\<not> skipOneStep s" and "doubleStep s"
    and "serverStep s = Some 25" and "world_stepCount s + int n \<le> 36" and "0 \<le> world_stepCount s"
  shows "inboundMessages ((step ^^ n) s) = [] \<and> \<not> skipOneStep ((step ^^ n) s)
         \<and> doubleStep ((step ^^ n) s) \<and> serverStep ((step ^^ n) s) = Some 25
         \<and> world_stepCount ((step ^^ n) s) = world_stepCount s + int n"
  using assms
proof (induction n)
  case 0
  then show ?case by simp
next
  case (Suc n)
  let ?t = "(step ^^ n) s"
  have ih: "inboundMessages ?t = []" "\<not> skipOneStep ?t" "doubleStep ?t"
    "serverStep ?t = Some 25" "world_stepCount ?t = world_stepCount s + int n"
    using Suc by simp_all
  have d: "world_stepCount (drainInbound ?t) = world_stepCount ?t"
    using ih(1) by (simp add: drainInbound_fold)
  have "\<not> clientAhead STEP_DRIFT_THRESHOLD (drainInbound ?t)"
    using d ih(4,5) Suc.prems(5) by (simp add: clientAhead_def STEP_DRIFT_THRESHOLD_def)
  then have k: "\<not> skipOneStep (step ?t)" by (simp add: step_skipOneStep)
  have db: "doubleStep (step ?t)" using ih(3) by (simp add: step_doubleStep)
  show ?case using plain_tick[OF ih(1,2)] ih(4,5) k db by simp
qed

lemma perTick_append:
  "perTick cur (xs @ ys) = perTick cur xs @ perTick (pendingInputs cur xs) ys"
  by (induction cur xs rule: perTick.induct) simp_all

lemma unskipped_prefix:
  "unskipped (xs @ ys) s \<Longrightarrow> unskipped xs s"
  by (induction xs arbitrary: s) (auto split: sum.splits)

lemma step_applies_first:
  assumes "\<not> skipOneStep s" and "\<not> gameEngine_passive s" and "delayedInputs s = Some (b # bs)"
  shows "\<not> gameEngine_passive (step s) \<and> delayedInputs (step s) = Some (bs @ [[]])
         \<and> appliedInputs (step s) = appliedInputs s @ batchInputs b"
proof -
  let ?s0 = "s\<lparr>traceStep := world_stepCount s + 1\<rparr>"
  have st: "step s = tickBody ?s0" using assms(1) by (rule step_unskipped)
  have a: "\<not> gameEngine_passive (tickBody ?s0)"
    using assms(2)
    by (simp add: tickBody_def gameEngine_step_def applyDelayedInputs_closed
        handleOutboundInput_closed split: option.splits)
  have b: "delayedInputs (tickBody ?s0) = Some (bs @ [[]])"
    using assms(3) by (simp add: tickBody_delayedInputs)
  have c: "processed (tickBody ?s0) = processed s @ map (\<lambda>m. (data m, playerId s)) b"
    using assms(2,3)
    by (simp add: tickBody_def gameEngine_step_def applyDelayedInputs_closed
        handleOutboundInput_closed)
  show ?thesis using a b c by (simp add: st appliedInputs_def batchInputs_def)
qed

lemma run_delay:
  "delayedInputs s = Some (bs @ [l]) \<Longrightarrow> \<not> gameEngine_passive s \<Longrightarrow> unskipped acts s \<Longrightarrow>
   \<exists>s' bs' l'. run acts s = Inr s' \<and> \<not> gameEngine_passive s'
     \<and> delayedInputs s' = Some (bs' @ [l']) \<and> length bs' = length bs
     \<and> appliedInputs s' =
         appliedInputs s
         @ concat (take (length (perTick (batchInputs l) acts))
                     (map batchInputs bs @ perTick (batchInputs l) acts))"
proof (induction acts arbitrary: s bs l)
  case Nil
  then show ?case by simp
next
  case (Cons a acts)
  show ?case
  proof (cases a)
    case (SendInput i opts)
    let ?m = "newMessage i opts s"
    let ?s1 = "s\<lparr>outboundMessages := outboundMessages s @ [?m],
                 delayedInputs := Some (butlast (bs @ [l]) @ [last (bs @ [l]) @ [?m]]),
                 messageIndex := map_option (\<lambda>n. toDouble (n + 1)) (messageIndex s)\<rparr>"
    have e: "sendInput i opts s = Inr ?s1"
      by (rule sendInput_delayed[OF Cons.prems(1)]) simp
    have d: "delayedInputs ?s1 = Some (bs @ [l @ [?m]])" by simp
    have p: "\<not> gameEngine_passive ?s1" using Cons.prems(2) by simp
    have u: "unskipped acts ?s1" using Cons.prems(3) SendInput e by simp
    have bi: "batchInputs (l @ [?m]) = batchInputs l @ [(i, opts)]"
      by (simp add: batchInputs_def newMessage_def issuance_def)
    from Cons.IH[OF d p u] obtain s' bs' l' where
      "run acts ?s1 = Inr s'" "\<not> gameEngine_passive s'"
      "delayedInputs s' = Some (bs' @ [l'])" "length bs' = length bs"
      "appliedInputs s' =
         appliedInputs ?s1
         @ concat (take (length (perTick (batchInputs (l @ [?m])) acts))
                     (map batchInputs bs @ perTick (batchInputs (l @ [?m])) acts))"
      by blast
    then show ?thesis using SendInput e bi by (auto simp: appliedInputs_def)
  next
    case Step
    have ns: "\<not> skipOneStep s" using Cons.prems(3) Step by simp
    obtain q qs where q: "bs @ [l] = q # qs" by (cases "bs @ [l]") auto
    have dq: "delayedInputs s = Some (q # qs)" using Cons.prems(1) q by simp
    from step_applies_first[OF ns Cons.prems(2) dq] have
      t: "\<not> gameEngine_passive (step s)" "delayedInputs (step s) = Some (qs @ [[]])"
         "appliedInputs (step s) = appliedInputs s @ batchInputs q"
      by simp_all
    have u: "unskipped acts (step s)" using Cons.prems(3) Step by simp
    from Cons.IH[OF t(2) t(1) u] obtain s' bs' l' where
      s': "run acts (step s) = Inr s'" "\<not> gameEngine_passive s'"
          "delayedInputs s' = Some (bs' @ [l'])" "length bs' = length qs"
          "appliedInputs s' =
             appliedInputs (step s)
             @ concat (take (length (perTick (batchInputs []) acts))
                         (map batchInputs qs @ perTick (batchInputs []) acts))"
      by blast
    have e0: "batchInputs [] = []" by (simp add: batchInputs_def)
    have Q: "map batchInputs bs @ batchInputs l # perTick [] acts
             = batchInputs q # (map batchInputs qs @ perTick [] acts)"
    proof -
      have "map batchInputs (bs @ [l]) = map batchInputs (q # qs)" using q by simp
      then show ?thesis by simp
    qed
    have len: "length qs = length bs"
    proof -
      have "length (bs @ [l]) = length (q # qs)" using q by simp
      then show ?thesis by simp
    qed
    have "appliedInputs s' =
          appliedInputs s
          @ concat (take (length (perTick (batchInputs l) (Step # acts)))
                      (map batchInputs bs @ perTick (batchInputs l) (Step # acts)))"
      using s'(5) t(3) by (simp add: e0 Q)
    then show ?thesis using Step s'(1,2,3,4) len by auto
  next
    case (WorldUpdate p)
    let ?s1 = "worldUpdate p s"
    have d: "delayedInputs ?s1 = Some (bs @ [l])" and pz: "\<not> gameEngine_passive ?s1"
      using Cons.prems(1,2) by (simp_all add: worldUpdate_def)
    have u: "unskipped acts ?s1" using Cons.prems(3) WorldUpdate by simp
    from Cons.IH[OF d pz u] show ?thesis
      using WorldUpdate by (auto simp: appliedInputs_def worldUpdate_def)
  next
    case (PlayerJoined pid)
    let ?s1 = "playerJoined pid s"
    have d: "delayedInputs ?s1 = Some (bs @ [l])" and pz: "\<not> gameEngine_passive ?s1"
      using Cons.prems(1,2) by (simp_all add: playerJoined_def)
    have u: "unskipped acts ?s1" using Cons.prems(3) PlayerJoined by simp
    from Cons.IH[OF d pz u] show ?thesis
      using PlayerJoined by (auto simp: appliedInputs_def playerJoined_def)
  next
    case (ServerStep v)
    let ?s1 = "s\<lparr>serverStep := v\<rparr>"
    have d: "delayedInputs ?s1 = Some (bs @ [l])" and pz: "\<not> gameEngine_passive ?s1"
      using Cons.prems(1,2) by simp_all
    have u: "unskipped acts ?s1" using Cons.prems(3) ServerStep by simp
    from Cons.IH[OF d pz u] show ?thesis
      using ServerStep by (auto simp: appliedInputs_def)
  qed
qed

lemma fresh_run:
  assumes "delayedInputs c = Some (replicate (Suc n) [])" and "\<not> gameEngine_passive c"
    and "processed c = []" and "unskipped acts c"
  shows "\<exists>s bs. run acts c = Inr s \<and> delayedInputs s = Some bs \<and> length bs = Suc n
           \<and> appliedInputs s = concat (take (length (perTick [] acts) - n) (perTick [] acts))"
proof -
  have d: "delayedInputs c = Some (replicate n [] @ [[]])"
    using assms(1) by (simp add: replicate_append_same)
  from run_delay[OF d assms(2,4)] obtain s' bs' l' where
    s': "run acts c = Inr s'" "delayedInputs s' = Some (bs' @ [l'])"
        "length bs' = length (replicate n ([]::message list))"
        "appliedInputs s' = appliedInputs c
           @ concat (take (length (perTick (batchInputs []) acts))
                       (map batchInputs (replicate n []) @ perTick (batchInputs []) acts))"
    by blast
  have m: "map batchInputs (replicate n []) = replicate n []" "batchInputs [] = []"
    by (simp_all add: batchInputs_def)
  have l: "length (bs' @ [l']) = Suc n" using s'(3) by simp
  have "appliedInputs s' =
          appliedInputs c
          @ concat (take (length (perTick [] acts)) (replicate n [] @ perTick [] acts))"
    using s'(4) unfolding m .
  moreover have "appliedInputs c = []" using assms(3) by (simp add: appliedInputs_def)
  ultimately have "appliedInputs s' = concat (take (length (perTick [] acts) - n) (perTick [] acts))"
    by (simp only: concat_take_replicate_Nil append_Nil)
  then show ?thesis using s'(1,2) l by blast
qed

lemma perTick_split:
  "perTick [] (pre @ Step # post) =
     perTick [] pre @ pendingInputs [] pre # perTick [] post"
  by (simp add: perTick_append)

lemma unskipped_no_serverStep:
  "\<not> truthy (serverStep s) \<Longrightarrow> \<not> skipOneStep s \<Longrightarrow>
   list_all (\<lambda>a. case a of ServerStep _ \<Rightarrow> False | _ \<Rightarrow> True) acts \<Longrightarrow> unskipped acts s"
proof (induction acts arbitrary: s)
  case Nil
  then show ?case by simp
next
  case (Cons a acts)
  have r: "list_all (\<lambda>a. case a of ServerStep _ \<Rightarrow> False | _ \<Rightarrow> True) acts"
    using Cons.prems(3) by simp
  show ?case
  proof (cases "act a s")
    case (Inl e)
    then show ?thesis using Cons.prems(2) by (cases a) simp_all
  next
    case (Inr s1)
    have "\<not> truthy (serverStep s1) \<and> \<not> skipOneStep s1"
    proof (cases a)
      case (SendInput i opts)
      then show ?thesis using Inr Cons.prems(1,2)
        by (auto simp: sendInput_def Let_def doInputLocal_def split: option.splits if_splits)
    next
      case Step
      then show ?thesis using Inr Cons.prems(1,2)
        by (auto simp: step_unskipped tickBody_skip tickBody_serverStep checkDrift_def)
    next
      case (ServerStep v)
      then show ?thesis using Cons.prems(3) by simp
    qed (use Inr Cons.prems(1,2) in \<open>auto simp: worldUpdate_def playerJoined_def\<close>)
    then have "unskipped acts s1" using Cons.IH r by blast
    then show ?thesis using Inr Cons.prems(2) by (cases a) simp_all
  qed
qed

lemma sample_fresh:
  "delayedInputs (sampleClient (Some 3)) = Some (replicate (Suc 2) [])"
  "\<not> gameEngine_passive (sampleClient (Some 3))" "processed (sampleClient (Some 3)) = []"
  "\<not> truthy (serverStep (sampleClient (Some 3)))" "\<not> skipOneStep (sampleClient (Some 3))"
  by (simp_all add: sampleClient_def initialFields_def sampleOptions_def sampleEngine_def
      truthy_def numeral_3_eq_3)

section \<open>The claims\<close>

subsection \<open>Inbound sync handler\<close>

text \<open>
  Claim C6. The authoritative step that \<open>handleInboundMessage\<close> computes for a payload is
  the maximum \<open>stepCount\<close> over the events that carry one (step counts being
  non-negative, as the specification's data model has them), events without a
  \<open>stepCount\<close> do not affect it, and it is \<open>0\<close> when no event carries one. With the events
  \<open>[{stepCount:7}, {}, {stepCount:4}]\<close> and local step \<open>5\<close> the result is \<open>7\<close> and the
  local step becomes \<open>7\<close>; with no step counts and local step \<open>5\<close> the local step stays
  \<open>5\<close>.
\<close>

theorem inbound_authoritative_step:
  "((\<forall>e\<in>set evs. \<forall>n. stepCount e = Some n \<longrightarrow> 0 \<le> n) \<longrightarrow>
      maxStepCount evs = spec_maxStepCount evs)
   \<and> maxStepCount (filter (\<lambda>e. stepCount e \<noteq> None) evs) = maxStepCount evs
   \<and> ((\<forall>e\<in>set evs0. stepCount e = None) \<longrightarrow> maxStepCount evs0 = 0)
   \<and> (deserializePayload s p =
         [\<lparr>stepCount = Some 7\<rparr>, \<lparr>stepCount = None\<rparr>, \<lparr>stepCount = Some 4\<rparr>]
        \<and> world_stepCount s = 5 \<longrightarrow>
        maxStepCount (deserializePayload s p) = 7
        \<and> world_stepCount (handleInboundMessage p s) = 7)
   \<and> ((\<forall>e\<in>set (deserializePayload s0 p0). stepCount e = None) \<and> world_stepCount s0 = 5 \<longrightarrow>
        maxStepCount (deserializePayload s0 p0) = 0
        \<and> world_stepCount (handleInboundMessage p0 s0) = 5)"
proof -
  have a: "(\<forall>e\<in>set evs. \<forall>n. stepCount e = Some n \<longrightarrow> 0 \<le> n) \<longrightarrow>
      maxStepCount evs = spec_maxStepCount evs"
  proof
    assume h: "\<forall>e\<in>set evs. \<forall>n. stepCount e = Some n \<longrightarrow> 0 \<le> n"
    have m: "maxStepCount evs = Max (insert 0 (set (List.map_filter stepCount evs)))"
      unfolding maxStepCount_def by (rule foldl_stepReducer[OF _ h]) simp
    show "maxStepCount evs = spec_maxStepCount evs"
    proof (cases "List.map_filter stepCount evs = []")
      case True
      then show ?thesis using m by (simp add: spec_maxStepCount_def)
    next
      case False
      have "\<forall>n\<in>set (List.map_filter stepCount evs). 0 \<le> n"
        using h by (auto simp: List.map_filter_def)
      then have "0 \<le> Max (set (List.map_filter stepCount evs))"
        using False by (meson List.finite_set Max_in set_empty)
      then have "Max (insert 0 (set (List.map_filter stepCount evs))) =
                 Max (set (List.map_filter stepCount evs))"
        using False by (simp add: max_def)
      then show ?thesis using m False by (simp add: spec_maxStepCount_def)
    qed
  qed
  have b: "maxStepCount (filter (\<lambda>e. stepCount e \<noteq> None) evs) = maxStepCount evs"
    unfolding maxStepCount_def by (rule maxStepCount_filter)
  have c: "(\<forall>e\<in>set evs0. stepCount e = None) \<longrightarrow> maxStepCount evs0 = 0"
    by (simp add: maxStepCount_def foldl_stepReducer_allNone)
  have d: "deserializePayload s p =
         [\<lparr>stepCount = Some 7\<rparr>, \<lparr>stepCount = None\<rparr>, \<lparr>stepCount = Some 4\<rparr>]
        \<and> world_stepCount s = 5 \<longrightarrow>
        maxStepCount (deserializePayload s p) = 7
        \<and> world_stepCount (handleInboundMessage p s) = 7"
    by (simp add: handle_stepCount maxStepCount_def stepReducer_def truthy_def)
  have e: "(\<forall>e\<in>set (deserializePayload s0 p0). stepCount e = None) \<and> world_stepCount s0 = 5 \<longrightarrow>
        maxStepCount (deserializePayload s0 p0) = 0
        \<and> world_stepCount (handleInboundMessage p0 s0) = 5"
    by (simp add: handle_stepCount maxStepCount_def foldl_stepReducer_allNone)
  from a b c d e show ?thesis by blast
qed

theorem inbound_authoritative_step_witness:
  "list_all (\<lambda>e. case stepCount e of None \<Rightarrow> True | Some n \<Rightarrow> 0 \<le> n)
     [\<lparr>stepCount = Some 7\<rparr>, \<lparr>stepCount = None\<rparr>, \<lparr>stepCount = Some 4\<rparr>]
   \<and> maxStepCount [\<lparr>stepCount = Some 7\<rparr>, \<lparr>stepCount = None\<rparr>, \<lparr>stepCount = Some 4\<rparr>]
       = spec_maxStepCount [\<lparr>stepCount = Some 7\<rparr>, \<lparr>stepCount = None\<rparr>, \<lparr>stepCount = Some 4\<rparr>]
   \<and> spec_maxStepCount [\<lparr>stepCount = Some 7\<rparr>, \<lparr>stepCount = None\<rparr>, \<lparr>stepCount = Some 4\<rparr>] = 7
   \<and> list_all (\<lambda>e. stepCount e = None) [\<lparr>stepCount = None\<rparr>, \<lparr>stepCount = None\<rparr>]
   \<and> maxStepCount [\<lparr>stepCount = None\<rparr>, \<lparr>stepCount = None\<rparr>] = 0
   \<and> world_stepCount ((sampleClient None)\<lparr>world_stepCount := 5\<rparr>) = 5
   \<and> world_stepCount
        (handleInboundMessage [\<lparr>stepCount = Some 7\<rparr>, \<lparr>stepCount = None\<rparr>, \<lparr>stepCount = Some 4\<rparr>]
           ((sampleClient None)\<lparr>world_stepCount := 5\<rparr>)) = 7
   \<and> world_stepCount
        (handleInboundMessage [\<lparr>stepCount = None\<rparr>, \<lparr>stepCount = None\<rparr>]
           ((sampleClient None)\<lparr>world_stepCount := 5\<rparr>)) = 5"
  using inbound_authoritative_step
    [of "[\<lparr>stepCount = Some 7\<rparr>, \<lparr>stepCount = None\<rparr>, \<lparr>stepCount = Some 4\<rparr>]"
        "[\<lparr>stepCount = None\<rparr>, \<lparr>stepCount = None\<rparr>]"
        "(sampleClient None)\<lparr>world_stepCount := 5\<rparr>"
        "[\<lparr>stepCount = Some 7\<rparr>, \<lparr>stepCount = None\<rparr>, \<lparr>stepCount = Some 4\<rparr>]"
        "(sampleClient None)\<lparr>world_stepCount := 5\<rparr>"
        "[\<lparr>stepCount = None\<rparr>, \<lparr>stepCount = None\<rparr>]"]
  by (simp add: sampleClient_def initialFields_def)

text \<open>
  Claim C10. An event whose \<open>stepCount\<close> is present but \<open>0\<close> is treated exactly like an
  event without one: the reducer tests the field for truthiness and returns the running
  maximum unchanged, so the event does not take part in the computation.
\<close>

theorem zero_stepCount_is_absent:
  "stepReducer mx (e\<lparr>stepCount := Some 0\<rparr>) = stepReducer mx (e\<lparr>stepCount := None\<rparr>)
   \<and> stepReducer mx (e\<lparr>stepCount := Some 0\<rparr>) = mx
   \<and> maxStepCount (xs @ e\<lparr>stepCount := Some 0\<rparr> # ys) = maxStepCount (xs @ e\<lparr>stepCount := None\<rparr> # ys)
   \<and> maxStepCount (xs @ e\<lparr>stepCount := Some 0\<rparr> # ys) = maxStepCount (xs @ ys)"
  by (simp add: maxStepCount_def stepReducer_zero stepReducer_None)

text \<open>
  Claim C9. The drain of the pending-inbound queue in a tick is most-recently-arrived
  first: \<open>worldUpdate\<close> arrivals are appended to the queue, and the loop of \<open>step\<close> runs
  \<open>handleInboundMessage\<close> over the queue in reverse arrival order until it is empty, as
  the \<open>client.syncReceived\<close> notifications show.
\<close>

theorem inbound_drain_lifo:
  "drainInbound s =
     foldl (\<lambda>t p. handleInboundMessage p t) (s\<lparr>inboundMessages := []\<rparr>) (rev (inboundMessages s))
   \<and> inboundMessages (drainInbound s) = []
   \<and> syncReceived (drainInbound s) =
       syncReceived s @ map (\<lambda>p. (deserializePayload s p, maxStepCount (deserializePayload s p)))
                            (rev (inboundMessages s))
   \<and> run (map WorldUpdate ps) s = Inr (s\<lparr>inboundMessages := inboundMessages s @ ps\<rparr>)
   \<and> (\<not> skipOneStep s \<longrightarrow>
        inboundMessages (step s) = []
        \<and> syncReceived (step s) =
            syncReceived s @ map (\<lambda>p. (deserializePayload s p, maxStepCount (deserializePayload s p)))
                                 (rev (inboundMessages s)))"
proof -
  have a: "inboundMessages (drainInbound s) = []"
    by (simp add: drainInbound_fold)
  have b: "\<not> skipOneStep s \<longrightarrow>
        inboundMessages (step s) = []
        \<and> syncReceived (step s) =
            syncReceived s @ map (\<lambda>p. (deserializePayload s p, maxStepCount (deserializePayload s p)))
                                 (rev (inboundMessages s))"
    by (simp add: step_unskipped tickBody_inbound tickBody_syncReceived drainInbound_syncReceived)
  show ?thesis
    using a b drainInbound_fold[of s] drainInbound_syncReceived[of s] run_worldUpdates[of ps s]
    by blast
qed

theorem inbound_drain_lifo_witness:
  "skipOneStep ((sampleClient None)\<lparr>inboundMessages :=
       [[\<lparr>stepCount = Some 1\<rparr>], [\<lparr>stepCount = Some 2\<rparr>], [\<lparr>stepCount = Some 3\<rparr>]]\<rparr>) = False
   \<and> inboundMessages (step ((sampleClient None)\<lparr>inboundMessages :=
       [[\<lparr>stepCount = Some 1\<rparr>], [\<lparr>stepCount = Some 2\<rparr>], [\<lparr>stepCount = Some 3\<rparr>]]\<rparr>)) = []
   \<and> syncReceived (step ((sampleClient None)\<lparr>inboundMessages :=
       [[\<lparr>stepCount = Some 1\<rparr>], [\<lparr>stepCount = Some 2\<rparr>], [\<lparr>stepCount = Some 3\<rparr>]]\<rparr>)) =
       [([\<lparr>stepCount = Some 3\<rparr>], 3), ([\<lparr>stepCount = Some 2\<rparr>], 2), ([\<lparr>stepCount = Some 1\<rparr>], 1)]"
  using inbound_drain_lifo
    [of "(sampleClient None)\<lparr>inboundMessages :=
       [[\<lparr>stepCount = Some 1\<rparr>], [\<lparr>stepCount = Some 2\<rparr>], [\<lparr>stepCount = Some 3\<rparr>]]\<rparr>" "[]"]
  by (simp add: sampleClient_def initialFields_def maxStepCount_def stepReducer_def truthy_def)

text \<open>
  Claim C3. \<open>handleInboundMessage\<close> overwrites the local step count with the computed
  maximum if and only if the maximum exceeds it, and never decreases it; over any
  sequence of inbound payloads, inputs and ticks the local step count is non-decreasing:
  a run from a client whose delay buffer is usable (as the constructor leaves it for a
  \<open>delayInputCount\<close> that is not negative) never raises, and the step count at any
  earlier point of it is at most the step count at any later point.
\<close>

theorem local_step_monotone:
  "world_stepCount (handleInboundMessage p s) =
     (if maxStepCount (deserializePayload s p) > world_stepCount s
      then maxStepCount (deserializePayload s p) else world_stepCount s)
   \<and> world_stepCount s \<le> world_stepCount (handleInboundMessage p s)
   \<and> world_stepCount s \<le> world_stepCount (drainInbound s)
   \<and> world_stepCount s \<le> world_stepCount (step s)
   \<and> (bufferReady s \<longrightarrow>
        (\<exists>s1 s2. run as1 s = Inr s1 \<and> run (as1 @ as2) s = Inr s2
                 \<and> world_stepCount s \<le> world_stepCount s1
                 \<and> world_stepCount s1 \<le> world_stepCount s2))"
proof -
  have a: "world_stepCount (handleInboundMessage p s) =
     (if maxStepCount (deserializePayload s p) > world_stepCount s
      then maxStepCount (deserializePayload s p) else world_stepCount s)"
    by (simp add: handle_stepCount max_def)
  have b: "world_stepCount s \<le> world_stepCount (handleInboundMessage p s)"
    by (simp add: handle_stepCount)
  have c: "bufferReady s \<longrightarrow>
        (\<exists>s1 s2. run as1 s = Inr s1 \<and> run (as1 @ as2) s = Inr s2
                 \<and> world_stepCount s \<le> world_stepCount s1
                 \<and> world_stepCount s1 \<le> world_stepCount s2)"
  proof
    assume r: "bufferReady s"
    from run_total[OF r, of as1] obtain s1 where
      s1: "run as1 s = Inr s1" "bufferReady s1" "world_stepCount s \<le> world_stepCount s1" by blast
    from run_total[OF s1(2), of as2] obtain s2 where
      s2: "run as2 s1 = Inr s2" "world_stepCount s1 \<le> world_stepCount s2" by blast
    have "run (as1 @ as2) s = Inr s2" using s1(1) s2(1) by (simp add: run_append)
    then show "\<exists>s1 s2. run as1 s = Inr s1 \<and> run (as1 @ as2) s = Inr s2
                 \<and> world_stepCount s \<le> world_stepCount s1
                 \<and> world_stepCount s1 \<le> world_stepCount s2"
      using s1 s2 by blast
  qed
  show ?thesis using a b c drainInbound_mono[of s] step_mono[of s] by blast
qed

theorem local_step_monotone_witness:
  "bufferReady (sampleClient (Some 3))
   \<and> (\<exists>s1 s2.
        run [WorldUpdate [\<lparr>stepCount = Some 7\<rparr>], Step] (sampleClient (Some 3)) = Inr s1
        \<and> run ([WorldUpdate [\<lparr>stepCount = Some 7\<rparr>], Step]
                @ [SendInput ''up'' None, WorldUpdate [\<lparr>stepCount = Some 4\<rparr>], Step])
             (sampleClient (Some 3)) = Inr s2
        \<and> world_stepCount (sampleClient (Some 3)) \<le> world_stepCount s1
        \<and> world_stepCount s1 \<le> world_stepCount s2)"
proof -
  have h: "bufferReady (sampleClient (Some 3))"
    by (simp add: bufferReady_def sampleClient_def initialFields_def sampleOptions_def truthy_def)
  from local_step_monotone
    [of "[]" "sampleClient (Some 3)" "[WorldUpdate [\<lparr>stepCount = Some 7\<rparr>], Step]"
        "[SendInput ''up'' None, WorldUpdate [\<lparr>stepCount = Some 4\<rparr>], Step]"] h
  show ?thesis by blast
qed

text \<open>
  Claim C4, as amended. In one tick's drift check with a threshold \<open>T \<ge> 1\<close> at most one of
  the skip-one-step and double-step flags is raised: the two comparisons (local step above
  authoritative step plus \<open>T\<close>, authoritative step above local step plus \<open>T\<close>) exclude
  each other and the check makes the one assignment of the comparison that holds. When no
  authoritative step has been received (\<open>serverStep\<close> is undefined) the check changes
  nothing and \<open>step\<close> raises no flag. The skip flag is cleared by the next call of
  \<open>step\<close>; the double-step flag is never cleared by the client engine, so both flags are
  true after a tick exactly when that tick raises the skip flag while the double-step flag
  is still set from an earlier tick.
\<close>

theorem drift_flags_exclusive:
  assumes "1 \<le> T"
  shows
  "\<not> (clientAhead T s \<and> clientBehind T s)
   \<and> checkDrift T s =
       (if truthy (serverStep s) \<and> clientAhead T s then s\<lparr>skipOneStep := True\<rparr>
        else if truthy (serverStep s) \<and> clientBehind T s then s\<lparr>doubleStep := True\<rparr>
        else s)
   \<and> skipOneStep (step s) =
       (\<not> skipOneStep s \<and> truthy (serverStep s)
        \<and> clientAhead STEP_DRIFT_THRESHOLD (drainInbound s))
   \<and> doubleStep (step s) =
       (doubleStep s \<or> (\<not> skipOneStep s \<and> truthy (serverStep s)
          \<and> clientBehind STEP_DRIFT_THRESHOLD (drainInbound s)))
   \<and> (skipOneStep (step s) \<and> doubleStep (step s)) =
       (doubleStep s \<and> \<not> skipOneStep s \<and> truthy (serverStep s)
        \<and> clientAhead STEP_DRIFT_THRESHOLD (drainInbound s))
   \<and> (serverStep s0 = None \<longrightarrow>
        checkDrift T s0 = s0 \<and> \<not> skipOneStep (step s0) \<and> doubleStep (step s0) = doubleStep s0)"
proof -
  have ex: "\<not> (clientAhead T s \<and> clientBehind T s)"
    using assms by (intro ahead_excludes_behind) simp
  have cd: "checkDrift T s =
       (if truthy (serverStep s) \<and> clientAhead T s then s\<lparr>skipOneStep := True\<rparr>
        else if truthy (serverStep s) \<and> clientBehind T s then s\<lparr>doubleStep := True\<rparr>
        else s)"
    by (simp add: checkDrift_def)
  have ex10: "\<not> (clientAhead STEP_DRIFT_THRESHOLD (drainInbound s)
           \<and> clientBehind STEP_DRIFT_THRESHOLD (drainInbound s))"
    by (rule ahead_excludes_behind) (simp add: STEP_DRIFT_THRESHOLD_def)
  have both: "(skipOneStep (step s) \<and> doubleStep (step s)) =
       (doubleStep s \<and> \<not> skipOneStep s \<and> truthy (serverStep s)
        \<and> clientAhead STEP_DRIFT_THRESHOLD (drainInbound s))"
    using ex10 unfolding step_skipOneStep step_doubleStep by blast
  have none: "serverStep s0 = None \<longrightarrow>
        checkDrift T s0 = s0 \<and> \<not> skipOneStep (step s0) \<and> doubleStep (step s0) = doubleStep s0"
    by (simp add: checkDrift_def truthy_def step_skipOneStep step_doubleStep)
  show ?thesis using ex cd both none step_skipOneStep[of s] step_doubleStep[of s] by blast
qed

theorem drift_flags_exclusive_witness:
  "(1::int) \<le> 10
   \<and> clientAhead 10 ((sampleClient None)\<lparr>world_stepCount := 25, serverStep := Some 5\<rparr>)
   \<and> \<not> clientBehind 10 ((sampleClient None)\<lparr>world_stepCount := 25, serverStep := Some 5\<rparr>)
   \<and> checkDrift 10 ((sampleClient None)\<lparr>world_stepCount := 25, serverStep := Some 5\<rparr>)
       = (sampleClient None)\<lparr>world_stepCount := 25, serverStep := Some 5, skipOneStep := True\<rparr>
   \<and> serverStep (sampleClient None) = None
   \<and> checkDrift 10 (sampleClient None) = sampleClient None
   \<and> \<not> skipOneStep (step (sampleClient None))
   \<and> \<not> doubleStep (step (sampleClient None))"
proof -
  let ?s = "(sampleClient None)\<lparr>world_stepCount := 25, serverStep := Some 5\<rparr>"
  have t: "(1::int) \<le> 10" by simp
  have n: "serverStep (sampleClient None) = None"
    by (simp add: sampleClient_def initialFields_def sampleEngine_def)
  have d: "\<not> doubleStep (sampleClient None)"
    by (simp add: sampleClient_def initialFields_def)
  have a: "clientAhead 10 ?s" "truthy (serverStep ?s)"
    by (simp_all add: clientAhead_def truthy_def)
  note th = drift_flags_exclusive[OF t, of ?s "sampleClient None"]
  have b: "\<not> clientBehind 10 ?s" using th a by blast
  have c: "checkDrift 10 ?s = ?s\<lparr>skipOneStep := True\<rparr>" using th a by simp
  have e: "checkDrift 10 (sampleClient None) = sampleClient None"
    "\<not> skipOneStep (step (sampleClient None))" "\<not> doubleStep (step (sampleClient None))"
    using th n d by simp_all
  show ?thesis using t a(1) b c n e by (simp del: update_convs)
qed

text \<open>
  The claim as stated (the flags are never both true) fails: a client that starts at
  step \<open>0\<close> with the authoritative step at \<open>25\<close> raises the double-step flag in its first
  tick, and, the authoritative step staying at \<open>25\<close>, raises the skip flag in its tick
  number \<open>37\<close> (local step \<open>36\<close>, above \<open>25 + 10\<close>), the double-step flag still being set.
\<close>

theorem both_drift_flags_true:
  "(1::int) \<le> STEP_DRIFT_THRESHOLD
   \<and> map_sum (\<lambda>e. e) (\<lambda>s. (skipOneStep s, doubleStep s, world_stepCount s))
       (run (replicate 37 Step) ((sampleClient None)\<lparr>serverStep := Some 25\<rparr>))
     = Inr (True, True, 37)"
proof -
  let ?s = "(sampleClient None)\<lparr>serverStep := Some 25\<rparr>"
  have i: "inboundMessages ?s = []" "\<not> skipOneStep ?s" "world_stepCount ?s = 0"
    "serverStep ?s = Some 25"
    by (simp_all add: sampleClient_def initialFields_def sampleEngine_def)
  have d0: "world_stepCount (drainInbound ?s) = 0" using i(1,3) by (simp add: drainInbound_fold)
  note p1 = plain_tick[OF i(1,2)]
  have k1: "\<not> skipOneStep (step ?s)"
    using d0 by (simp add: step_skipOneStep clientAhead_def STEP_DRIFT_THRESHOLD_def)
  have b1: "doubleStep (step ?s)"
    using d0 i(2) by (simp add: step_doubleStep clientBehind_def STEP_DRIFT_THRESHOLD_def truthy_def)
  have c1: "world_stepCount (step ?s) = 1" "serverStep (step ?s) = Some 25"
    using p1 i(3,4) by simp_all
  let ?t = "(step ^^ 35) (step ?s)"
  have l: "inboundMessages ?t = [] \<and> \<not> skipOneStep ?t \<and> doubleStep ?t
           \<and> serverStep ?t = Some 25 \<and> world_stepCount ?t = world_stepCount (step ?s) + int 35"
    by (rule lagging_ticks[OF p1(1) k1 b1 c1(2)]) (simp_all add: c1)
  then have t: "inboundMessages ?t = []" "\<not> skipOneStep ?t" "doubleStep ?t"
    "serverStep ?t = Some 25" "world_stepCount ?t = 36"
    using c1 by simp_all
  have d: "world_stepCount (drainInbound ?t) = 36" using t(1,5) by (simp add: drainInbound_fold)
  have k: "skipOneStep (step ?t)"
    using d t(2,4) by (simp add: step_skipOneStep clientAhead_def STEP_DRIFT_THRESHOLD_def truthy_def)
  have b: "doubleStep (step ?t)" using t(3) by (simp add: step_doubleStep)
  have c: "world_stepCount (step ?t) = 37" using plain_tick(3)[OF t(1,2)] t(5) by simp
  have "(step ^^ 37) ?s = step ?t"
  proof -
    have "(37::nat) = Suc (35 + 1)" by simp
    then have "(step ^^ 37) ?s = (step ^^ Suc (35 + 1)) ?s" by (simp only:)
    also have "\<dots> = step ((step ^^ 35) ((step ^^ 1) ?s))"
      by (simp only: funpow.simps funpow_add o_apply)
    finally show ?thesis by simp
  qed
  then show ?thesis using k b c
    by (simp add: run_ticks STEP_DRIFT_THRESHOLD_def del: update_convs)
qed

text \<open>
  Claim C5, as amended. When an authoritative step other than \<open>0\<close> has been received and
  a tick that is not itself skipped finds, at its drift check, the local step count above
  the authoritative step count plus the threshold, the skip flag becomes true while that
  tick still advances the simulation; the next call of \<open>step\<close> only sets the trace's step
  and clears the flag (no drain, no send, no input, no simulation advance); the call after
  that runs the whole tick again.
\<close>

theorem ahead_skips_next_tick:
  assumes "\<not> skipOneStep s"
    and "serverStep s = Some a" and "a \<noteq> 0"
    and "world_stepCount (drainInbound s) > a + STEP_DRIFT_THRESHOLD"
  shows
  "skipOneStep (step s)
   \<and> world_stepCount (step s) = world_stepCount (drainInbound s) + 1
   \<and> step (step s) = (step s)\<lparr>traceStep := world_stepCount (step s) + 1, skipOneStep := False\<rparr>
   \<and> world_stepCount (step (step s)) = world_stepCount (step s)
   \<and> \<not> skipOneStep (step (step s))
   \<and> step (step (step s)) = tickBody (step (step s))
   \<and> world_stepCount (step (step (step s))) \<ge> world_stepCount (step s) + 1"
proof -
  let ?d = "drainInbound (s\<lparr>traceStep := world_stepCount s + 1\<rparr>)"
  have w: "world_stepCount ?d = world_stepCount (drainInbound s)"
    by (simp add: drainInbound_traceStep)
  have "truthy (serverStep ?d)" "clientAhead STEP_DRIFT_THRESHOLD ?d"
    using assms w by (simp_all add: truthy_def clientAhead_def)
  then have "skipOneStep (checkDrift STEP_DRIFT_THRESHOLD ?d)"
    by (simp add: checkDrift_def)
  then have s1: "skipOneStep (step s)"
    using assms(1) by (simp add: step_unskipped tickBody_skip)
  have c1: "world_stepCount (step s) = world_stepCount (drainInbound s) + 1"
    using assms(1) w by (simp add: step_unskipped tickBody_stepCount)
  have s2: "step (step s) = (step s)\<lparr>traceStep := world_stepCount (step s) + 1, skipOneStep := False\<rparr>"
    using s1 by (rule step_skipped)
  have c2: "world_stepCount (step (step s)) = world_stepCount (step s)"
    by (simp add: s2)
  have n2: "\<not> skipOneStep (step (step s))" by (simp add: s2)
  have t2: "traceStep (step (step s)) = world_stepCount (step (step s)) + 1"
    by (simp add: s2)
  have "step (step (step s)) =
        tickBody ((step (step s))\<lparr>traceStep := world_stepCount (step (step s)) + 1\<rparr>)"
    using n2 by (rule step_unskipped)
  also have "(step (step s))\<lparr>traceStep := world_stepCount (step (step s)) + 1\<rparr> = step (step s)"
    using t2 by simp
  finally have s3: "step (step (step s)) = tickBody (step (step s))" .
  have "world_stepCount (step (step s)) \<le> world_stepCount (drainInbound (step (step s)))"
    by (rule drainInbound_mono)
  then have c3: "world_stepCount (step (step (step s))) \<ge> world_stepCount (step s) + 1"
    using c2 by (simp add: s3 tickBody_stepCount)
  show ?thesis using s1 c1 s2 c2 n2 s3 c3 by blast
qed

theorem ahead_skips_next_tick_witness:
  "skipOneStep ((sampleClient None)\<lparr>world_stepCount := 25, serverStep := Some 5\<rparr>) = False
   \<and> serverStep ((sampleClient None)\<lparr>world_stepCount := 25, serverStep := Some 5\<rparr>) = Some 5
   \<and> (5::int) \<noteq> 0
   \<and> world_stepCount (drainInbound ((sampleClient None)\<lparr>world_stepCount := 25, serverStep := Some 5\<rparr>))
       > 5 + STEP_DRIFT_THRESHOLD
   \<and> skipOneStep (step ((sampleClient None)\<lparr>world_stepCount := 25, serverStep := Some 5\<rparr>))
   \<and> world_stepCount (step ((sampleClient None)\<lparr>world_stepCount := 25, serverStep := Some 5\<rparr>)) = 26
   \<and> world_stepCount (step (step ((sampleClient None)\<lparr>world_stepCount := 25, serverStep := Some 5\<rparr>))) = 26
   \<and> \<not> skipOneStep (step (step ((sampleClient None)\<lparr>world_stepCount := 25, serverStep := Some 5\<rparr>)))"
proof -
  let ?s = "(sampleClient None)\<lparr>world_stepCount := 25, serverStep := Some 5\<rparr>"
  have h1: "\<not> skipOneStep ?s" by (simp add: sampleClient_def initialFields_def)
  have h2: "serverStep ?s = Some 5" by simp
  have h3: "(5::int) \<noteq> 0" by simp
  have "inboundMessages ?s = []" by (simp add: sampleClient_def initialFields_def)
  then have d: "world_stepCount (drainInbound ?s) = 25"
    by (simp add: drainInbound_fold)
  then have h4: "world_stepCount (drainInbound ?s) > 5 + STEP_DRIFT_THRESHOLD"
    by (simp add: STEP_DRIFT_THRESHOLD_def)
  from ahead_skips_next_tick[OF h1 h2 h3 h4] h1 h2 h3 h4 d
  show ?thesis by simp
qed

text \<open>
  The claim as stated (for every authoritative step count) fails at the authoritative
  step \<open>0\<close>: \<open>step\<close> tests \<open>serverStep\<close> for truthiness before it compares, so with local
  step \<open>25\<close> and authoritative step \<open>0\<close> no flag is raised and the next two ticks both
  advance the simulation.
\<close>

theorem zero_authoritative_step_no_skip:
  "serverStep ((sampleClient None)\<lparr>world_stepCount := 25, serverStep := Some 0\<rparr>) = Some 0
   \<and> world_stepCount (drainInbound ((sampleClient None)\<lparr>world_stepCount := 25, serverStep := Some 0\<rparr>))
       > 0 + STEP_DRIFT_THRESHOLD
   \<and> skipOneStep (step ((sampleClient None)\<lparr>world_stepCount := 25, serverStep := Some 0\<rparr>)) = False
   \<and> world_stepCount (step ((sampleClient None)\<lparr>world_stepCount := 25, serverStep := Some 0\<rparr>)) = 26
   \<and> world_stepCount (step (step ((sampleClient None)\<lparr>world_stepCount := 25, serverStep := Some 0\<rparr>)))
       = 27"
proof -
  let ?s = "(sampleClient None)\<lparr>world_stepCount := 25, serverStep := Some 0\<rparr>"
  have i: "inboundMessages ?s = []" "skipOneStep ?s = False"
    by (simp_all add: sampleClient_def initialFields_def)
  have d: "world_stepCount (drainInbound ?s) = 25"
    using i by (simp add: drainInbound_fold)
  have k: "skipOneStep (step ?s) = False"
    using i(2) by (simp add: step_unskipped tickBody_skip checkDrift_def truthy_def)
  have c1: "world_stepCount (step ?s) = 26"
    using i(2) d by (simp add: step_unskipped tickBody_stepCount drainInbound_traceStep)
  have i1: "inboundMessages (step ?s) = []"
    using i(2) by (simp add: step_unskipped tickBody_inbound)
  have "world_stepCount (drainInbound (step ?s)) = 26"
    using i1 c1 by (simp add: drainInbound_fold)
  then have c2: "world_stepCount (step (step ?s)) = 27"
    using k by (simp add: step_unskipped tickBody_stepCount drainInbound_traceStep)
  show ?thesis using d k c1 c2 by (simp add: STEP_DRIFT_THRESHOLD_def)
qed

subsection \<open>Strategy selection\<close>

text \<open>
  Claim C8. Configuring the sync mode \<open>reflect\<close> is configuring \<open>interpolate\<close> with the
  reflect modifier set to true: the options are rewritten and the interpolate selector is
  the one activated, by the same code path. After configuration with a recognized mode,
  exactly one of the extrapolate, interpolate and frame-sync selectors is activated on a
  synchronizer that came with none.
\<close>

theorem reflect_is_interpolate:
  "configureSynchronization mk (Some \<lparr>sync = ''reflect'', reflect = r\<rparr>) =
     configureSynchronization mk (Some \<lparr>sync = ''interpolate'', reflect = True\<rparr>)
   \<and> configureSynchronization mk (Some \<lparr>sync = ''reflect'', reflect = r\<rparr>) =
       Inr (\<lparr>sync = ''interpolate'', reflect = True\<rparr>,
            (mk \<lparr>sync = ''interpolate'', reflect = True\<rparr>)
              \<lparr>interpolateObjectSelector := Some (\<lambda>_. True)\<rparr>)
   \<and> (recognizedMode (sync so) \<and> activeSelectors (mk (rewriteReflect so)) = 0 \<longrightarrow>
        (\<exists>so' syn. configureSynchronization mk (Some so) = Inr (so', syn)
           \<and> activeSelectors syn = 1
           \<and> (sync so = ''extrapolate'' \<longrightarrow> extrapolateObjectSelector syn = Some (\<lambda>_. True))
           \<and> (sync so = ''interpolate'' \<or> sync so = ''reflect'' \<longrightarrow>
                interpolateObjectSelector syn = Some (\<lambda>_. True) \<and> sync so' = ''interpolate'')
           \<and> (sync so = ''reflect'' \<longrightarrow> reflect so')
           \<and> (sync so = ''frameSync'' \<longrightarrow> frameSyncSelector syn = Some (\<lambda>_. True))))"
proof -
  have a: "configureSynchronization mk (Some \<lparr>sync = ''reflect'', reflect = r\<rparr>) =
       Inr (\<lparr>sync = ''interpolate'', reflect = True\<rparr>,
            (mk \<lparr>sync = ''interpolate'', reflect = True\<rparr>)
              \<lparr>interpolateObjectSelector := Some (\<lambda>_. True)\<rparr>)"
    by (simp add: configureSynchronization_def rewriteReflect_def selectStrategy_def Let_def)
  have b: "configureSynchronization mk (Some \<lparr>sync = ''interpolate'', reflect = True\<rparr>) =
       Inr (\<lparr>sync = ''interpolate'', reflect = True\<rparr>,
            (mk \<lparr>sync = ''interpolate'', reflect = True\<rparr>)
              \<lparr>interpolateObjectSelector := Some (\<lambda>_. True)\<rparr>)"
    by (simp add: configureSynchronization_def rewriteReflect_def selectStrategy_def Let_def)
  have c: "recognizedMode (sync so) \<and> activeSelectors (mk (rewriteReflect so)) = 0 \<longrightarrow>
        (\<exists>so' syn. configureSynchronization mk (Some so) = Inr (so', syn)
           \<and> activeSelectors syn = 1
           \<and> (sync so = ''extrapolate'' \<longrightarrow> extrapolateObjectSelector syn = Some (\<lambda>_. True))
           \<and> (sync so = ''interpolate'' \<or> sync so = ''reflect'' \<longrightarrow>
                interpolateObjectSelector syn = Some (\<lambda>_. True) \<and> sync so' = ''interpolate'')
           \<and> (sync so = ''reflect'' \<longrightarrow> reflect so')
           \<and> (sync so = ''frameSync'' \<longrightarrow> frameSyncSelector syn = Some (\<lambda>_. True)))"
    by (auto simp: configureSynchronization_def rewriteReflect_def selectStrategy_def Let_def
        recognizedMode_def activeSelectors_def split: if_splits)
  show ?thesis using a b c by simp
qed

theorem reflect_is_interpolate_witness:
  "recognizedMode (sync \<lparr>sync = ''reflect'', reflect = False\<rparr>)
   \<and> activeSelectors (freshSynchronizer (rewriteReflect \<lparr>sync = ''reflect'', reflect = False\<rparr>)) = 0
   \<and> (\<exists>so' syn.
        configureSynchronization freshSynchronizer (Some \<lparr>sync = ''reflect'', reflect = False\<rparr>)
          = Inr (so', syn)
        \<and> activeSelectors syn = 1
        \<and> interpolateObjectSelector syn = Some (\<lambda>_. True)
        \<and> sync so' = ''interpolate'' \<and> reflect so')"
proof -
  have h: "recognizedMode (sync \<lparr>sync = ''reflect'', reflect = False\<rparr>)"
    "activeSelectors (freshSynchronizer (rewriteReflect \<lparr>sync = ''reflect'', reflect = False\<rparr>)) = 0"
    by (simp_all add: recognizedMode_def activeSelectors_def freshSynchronizer_def)
  have s: "sync \<lparr>sync = ''reflect'', reflect = False\<rparr> = ''reflect''" by simp
  from reflect_is_interpolate[of freshSynchronizer False "\<lparr>sync = ''reflect'', reflect = False\<rparr>"] h s
  show ?thesis by blast
qed

subsection \<open>Sequence numbers\<close>

text \<open>
  Claim C7, as amended. The sequence numbers of a player start at \<open>10000\<close> times the
  assigned player identifier and grow by one per issued input: for an identifier whose
  namespace of \<open>10000\<close> numbers lies within the integers that a double holds exactly, the
  \<open>i\<close>-th message (counting from \<open>0\<close>, \<open>i < 10000\<close>) issued after the identity was
  assigned carries \<open>10000 * playerId + i\<close>. For two clients with distinct such
  identifiers, a message among the first \<open>10000\<close> of the one never carries the sequence
  number of a message among the first \<open>10000\<close> of the other.
\<close>

theorem sequence_numbers_partitioned:
  assumes "p \<noteq> q" and "exactNamespace p" and "exactNamespace q"
    and "noRejoin acts1" and "noRejoin acts2"
    and "i < length (issued acts1 (playerJoined p s))" and "i < 10000"
    and "j < length (issued acts2 (playerJoined q t))" and "j < 10000"
  shows
  "sequenceNumbers (issued acts1 (playerJoined p s)) ! i = Some (p * 10000 + int i)
   \<and> sequenceNumbers (issued acts2 (playerJoined q t)) ! j = Some (q * 10000 + int j)
   \<and> sequenceNumbers (issued acts1 (playerJoined p s)) ! i
       \<noteq> sequenceNumbers (issued acts2 (playerJoined q t)) ! j"
proof -
  have a: "sequenceNumbers (issued acts1 (playerJoined p s)) ! i = Some (p * 10000 + int i)"
    by (rule issued_sequenceNumber[OF playerJoined_base[OF assms(2)] assms(4,6)
          exactNamespace_bounds[OF assms(2,7)]])
  have b: "sequenceNumbers (issued acts2 (playerJoined q t)) ! j = Some (q * 10000 + int j)"
    by (rule issued_sequenceNumber[OF playerJoined_base[OF assms(3)] assms(5,8)
          exactNamespace_bounds[OF assms(3,9)]])
  have "p * 10000 + int i \<noteq> q * 10000 + int j"
    using assms(1,7,9) by (rule namespaces_disjoint)
  then show ?thesis using a b by simp
qed

theorem sequence_numbers_partitioned_witness:
  "(1::int) \<noteq> 2 \<and> exactNamespace 1 \<and> exactNamespace 2
   \<and> noRejoin [SendInput ''up'' None, Step, SendInput ''fire'' None :: syncEvent list action]
   \<and> noRejoin [SendInput ''down'' None :: syncEvent list action]
   \<and> 1 < length (issued [SendInput ''up'' None, Step, SendInput ''fire'' None]
                   (playerJoined 1 (sampleClient (Some 3))))
   \<and> 0 < length (issued [SendInput ''down'' None] (playerJoined 2 (sampleClient None)))
   \<and> sequenceNumbers (issued [SendInput ''up'' None, Step, SendInput ''fire'' None]
                          (playerJoined 1 (sampleClient (Some 3)))) ! 1 = Some 10001
   \<and> sequenceNumbers (issued [SendInput ''down'' None] (playerJoined 2 (sampleClient None))) ! 0
       = Some 20000"
proof -
  have r1: "bufferReady (playerJoined 1 (sampleClient (Some 3)))"
    by (simp add: bufferReady_playerJoined bufferReady_sampleClient)
  from sendInput_total[OF r1, of "''up''" None] obtain s1 where
    s1: "sendInput ''up'' None (playerJoined 1 (sampleClient (Some 3))) = Inr s1" "bufferReady s1"
    by blast
  from sendInput_total[OF step_bufferReady[OF s1(2)], of "''fire''" None] obtain s2 where
    s2: "sendInput ''fire'' None (step s1) = Inr s2" by blast
  have l1: "1 < length (issued [SendInput ''up'' None, Step, SendInput ''fire'' None]
                   (playerJoined 1 (sampleClient (Some 3))))"
    using s1 s2 by simp
  have r2: "bufferReady (playerJoined 2 (sampleClient None))"
    by (simp add: bufferReady_playerJoined bufferReady_sampleClient)
  from sendInput_total[OF r2, of "''down''" None] obtain t1 where
    "sendInput ''down'' None (playerJoined 2 (sampleClient None)) = Inr t1" by blast
  then have l2: "0 < length (issued [SendInput ''down'' None] (playerJoined 2 (sampleClient None)))"
    by simp
  have n1: "noRejoin [SendInput ''up'' None, Step, SendInput ''fire'' None :: syncEvent list action]"
    and n2: "noRejoin [SendInput ''down'' None :: syncEvent list action]"
    by (simp_all add: noRejoin_def)
  have d: "(1::int) \<noteq> 2" by simp
  have e: "exactNamespace 1" "exactNamespace 2" by (simp_all add: exactNamespace_def)
  have b: "(1::nat) < 10000" "(0::nat) < 10000" by simp_all
  from sequence_numbers_partitioned[OF d e n1 n2 l1 b(1) l2 b(2)] d e n1 n2 l1 l2
  show ?thesis by simp
qed

text \<open>
  The claim as stated (for any two distinct identifiers and any number of messages)
  fails. The increment is unbounded, so the input number \<open>10001\<close> of player \<open>1\<close> carries
  \<open>20000\<close>, the sequence number of the first input of player \<open>2\<close>. And the numbers are
  doubles, so the bases of the distinct identifiers \<open>8000000000000001\<close> and
  \<open>8000000000000002\<close> round to the same number and their first inputs carry it.
\<close>

theorem sequence_numbers_collide:
  "sequenceNumbers (issued (replicate 10001 (SendInput ''fire'' None))
                      (playerJoined 1 (sampleClient None))) ! 10000 = Some 20000
   \<and> sequenceNumbers (issued [SendInput ''fire'' None] (playerJoined 2 (sampleClient None))) ! 0
       = Some 20000
   \<and> sequenceNumbers (issued [SendInput ''fire'' None]
                           (playerJoined 8000000000000001 (sampleClient None))) ! 0
       = Some 80000000000000016384
   \<and> sequenceNumbers (issued [SendInput ''fire'' None]
                           (playerJoined 8000000000000002 (sampleClient None))) ! 0
       = Some 80000000000000016384"
proof -
  have r: "\<And>p. bufferReady (playerJoined p (sampleClient None))"
    by (simp add: bufferReady_playerJoined bufferReady_sampleClient)
  have m1: "messageIndex (playerJoined 1 (sampleClient None)) = Some 10000"
    and m2: "messageIndex (playerJoined 2 (sampleClient None)) = Some 20000"
    by (simp_all add: playerJoined_def toDouble_def)
  have a: "sequenceNumbers (issued (replicate 10001 (SendInput ''fire'' None))
                      (playerJoined 1 (sampleClient None))) ! 10000 = Some (10000 + int 10000)"
    by (rule issued_replicate_sequenceNumber[OF r m1]) simp_all
  have first: "\<And>p. sequenceNumbers (issued [SendInput ''fire'' None]
                    (playerJoined p (sampleClient None))) ! 0
                = Some (toDouble (p * 10000))"
  proof -
    fix p :: int
    from sendInput_total[OF r, of "''fire''" None p] obtain t where
      "sendInput ''fire'' None (playerJoined p (sampleClient None)) = Inr t" by blast
    then show "sequenceNumbers (issued [SendInput ''fire'' None]
                    (playerJoined p (sampleClient None))) ! 0
                = Some (toDouble (p * 10000))"
      by (simp add: sequenceNumbers_def newMessage_def playerJoined_def)
  qed
  have b1: "bitLength 80000000000000010000 = 67" "bitLength 80000000000000020000 = 67"
    by (rule bitLength_eq[of 66, simplified]; simp)+
  have d1: "toDouble (8000000000000001 * 10000) = 80000000000000016384"
    and d2: "toDouble (8000000000000002 * 10000) = 80000000000000016384"
    and d3: "toDouble (2 * 10000) = 20000"
    using b1 by (simp_all add: toDouble_def Let_def)
  show ?thesis using a first[of 2] first[of 8000000000000001] first[of 8000000000000002] d1 d2 d3
    by simp
qed

subsection \<open>Outbound input\<close>

text \<open>
  Claim C2. Every message issued by \<open>sendInput\<close> appears exactly once in the outbound
  stream, in issuance order, whether or not its local application is delayed. Over any
  run of arrivals, inputs and ticks from a client whose delay buffer is usable (none, or
  one with a batch, as the constructor leaves it), what has
  been emitted followed by what is still queued is what was there before followed by the
  issued messages, one per input in the order of issue; a tick that is not skipped emits
  the whole queue in order and leaves it empty, and after two more ticks (one of which is
  not skipped) everything issued has been emitted. A call of \<open>step\<close> runs to completion,
  so an issuance of a run falls before or after a flush; and were input issued while the
  loop of the flush runs, the loop would emit it too, once and in order, before the queue
  is cleared.
\<close>

theorem outbound_stream_fifo:
  assumes "bufferReady s"
  shows
  "\<exists>s' s''.
     run acts s = Inr s'
     \<and> emitted s' @ map wire (outboundMessages s') =
         emitted s @ map wire (outboundMessages s) @ map wire (issued acts s)
     \<and> (\<not> skipOneStep s' \<longrightarrow>
          emitted (step s') = emitted s' @ map wire (outboundMessages s')
          \<and> outboundMessages (step s') = [])
     \<and> run (acts @ [Step, Step]) s = Inr s''
     \<and> outboundMessages s'' = []
     \<and> emitted s'' = emitted s @ map wire (outboundMessages s) @ map wire (issued acts s)
     \<and> map (\<lambda>m. issuance (data m)) (issued acts s) = inputsOf acts
     \<and> handleOutboundInputDuring [] s' = Inr (handleOutboundInput s')
     \<and> (\<exists>s1 ms. handleOutboundInputDuring during s' = Inr s1 \<and> outboundMessages s1 = []
          \<and> emitted s1 = emitted s' @ map wire (outboundMessages s') @ map wire ms
          \<and> batchInputs ms = concat (take (length (outboundMessages s') + length ms) during))"
proof -
  from run_stream[OF assms, of acts] obtain s' where
    s': "run acts s = Inr s'" "bufferReady s'"
        "emitted s' @ map wire (outboundMessages s') =
           emitted s @ map wire (outboundMessages s) @ map wire (issued acts s)"
    by blast
  let ?s2 = "step (step s')"
  have r: "run (acts @ [Step, Step]) s = Inr ?s2"
    using s'(1) by (simp add: run_append)
  have o: "outboundMessages ?s2 = []" by (rule two_steps_flush)
  have "emitted ?s2 @ map wire (outboundMessages ?s2) = emitted s' @ map wire (outboundMessages s')"
    by (simp only: step_stream)
  then have e: "emitted ?s2 = emitted s @ map wire (outboundMessages s) @ map wire (issued acts s)"
    using o s'(3) by simp
  show ?thesis
    using s'(1,3) step_flush[of s'] r o e issued_inputs[OF assms, of acts]
      handleOutboundInputDuring_Nil[of s'] handleOutboundInputDuring_sends_all[OF s'(2), of during]
    by blast
qed

theorem outbound_stream_fifo_witness:
  "bufferReady (sampleClient (Some 3))
   \<and> (\<exists>s''.
        run ([SendInput ''up'' None, Step, SendInput ''left'' None, SendInput ''fire'' None]
             @ [Step, Step]) (sampleClient (Some 3)) = Inr s''
        \<and> outboundMessages s'' = []
        \<and> map (\<lambda>e. issuance (snd e)) (emitted s'') =
            [(''up'', None), (''left'', None), (''fire'', None)])"
proof -
  have h: "bufferReady (sampleClient (Some 3))" by (rule bufferReady_sampleClient)
  have e: "emitted (sampleClient (Some 3)) = []" "outboundMessages (sampleClient (Some 3)) = []"
    by (simp_all add: sampleClient_def initialFields_def)
  have i: "inputsOf [SendInput ''up'' None, Step, SendInput ''left'' None, SendInput ''fire'' None
                     :: syncEvent list action] =
           [(''up'', None), (''left'', None), (''fire'', None)]"
    by (simp add: inputsOf_def)
  from outbound_stream_fifo[OF h,
      of "[SendInput ''up'' None, Step, SendInput ''left'' None, SendInput ''fire'' None]"]
  obtain s'' where
    s: "run ([SendInput ''up'' None, Step, SendInput ''left'' None, SendInput ''fire'' None]
             @ [Step, Step]) (sampleClient (Some 3)) = Inr s''"
       "outboundMessages s'' = []"
       "emitted s'' = emitted (sampleClient (Some 3))
          @ map wire (outboundMessages (sampleClient (Some 3)))
          @ map wire (issued [SendInput ''up'' None, Step, SendInput ''left'' None,
                              SendInput ''fire'' None] (sampleClient (Some 3)))"
       "map (\<lambda>m. issuance (data m))
          (issued [SendInput ''up'' None, Step, SendInput ''left'' None, SendInput ''fire'' None]
             (sampleClient (Some 3))) =
        inputsOf [SendInput ''up'' None, Step, SendInput ''left'' None, SendInput ''fire'' None
                  :: syncEvent list action]"
    by blast
  have "map (\<lambda>e. issuance (snd e)) (emitted s'') =
        map (\<lambda>m. issuance (data m))
          (issued [SendInput ''up'' None, Step, SendInput ''left'' None, SendInput ''fire'' None]
             (sampleClient (Some 3)))"
    unfolding s(3) e by (simp add: wire_def comp_def del: issued.simps)
  then have m: "map (\<lambda>e. issuance (snd e)) (emitted s'') =
             [(''up'', None), (''left'', None), (''fire'', None)]"
    using s(4) i by simp
  show ?thesis by (intro conjI exI[of _ s''] h s(1) s(2) m)
qed

subsection \<open>Delayed input\<close>

text \<open>
  Claim C1, as amended. With \<open>delayInputCount\<close> configured to \<open>D > 0\<close> the constructor
  creates \<open>D\<close> empty batches and the buffer holds \<open>D\<close> batches after every run. In a game
  engine that is not passive, over any run of joins, arrivals, authoritative steps, inputs
  and ticks in which no tick is skipped for drift, the inputs issued for tick \<open>T\<close> (since
  the tick before and before tick \<open>T\<close> applies its batch) are applied to the local
  simulation during tick \<open>T + D - 1\<close>, in issuance order, and not before: tick \<open>t\<close> applies
  exactly the inputs issued for tick \<open>t + 1 - D\<close> and none while \<open>t + 1 < D\<close>. With \<open>D = 3\<close>
  an input issued for tick \<open>0\<close> is applied during tick \<open>2\<close>.
\<close>

theorem delayed_input_applied:
  assumes "constructor newSyn deser ge opts = Inr c"
    and "delayInputCount opts = Some D" and "0 < D"
    and "\<not> ge_passive ge" and "unskipped acts c"
  shows
  "delayedInputs c = Some (replicate (nat D) [])
   \<and> (\<exists>s bs. run acts c = Inr s \<and> delayedInputs s = Some bs \<and> length bs = nat D
          \<and> appliedInputs s =
              concat (take (length (perTick [] acts) + 1 - nat D) (perTick [] acts)))
   \<and> (\<forall>pre post. acts = pre @ Step # post \<longrightarrow>
        (\<exists>s0 s1. run pre c = Inr s0 \<and> run (pre @ [Step]) c = Inr s1
           \<and> appliedInputs s1 =
               appliedInputs s0
               @ (if nat D \<le> length (perTick [] pre) + 1
                  then perTick [] acts ! (length (perTick [] pre) + 1 - nat D) else [])))"
proof -
  obtain n where n: "nat D = Suc n" using assms(3) by (cases "nat D") auto
  have d: "delayedInputs c = Some (replicate (Suc n) [])"
    using constructor_fields(1)[OF assms(1)] assms(2,3) n by (simp add: truthy_def)
  have np: "\<not> gameEngine_passive c"
    using constructor_fields(6)[OF assms(1)] assms(4) by simp
  have pr: "processed c = []" by (rule constructor_fields(2)[OF assms(1)])
  have run: "\<And>xs. unskipped xs c \<Longrightarrow>
               \<exists>s bs. run xs c = Inr s \<and> delayedInputs s = Some bs \<and> length bs = Suc n
                 \<and> appliedInputs s = concat (take (length (perTick [] xs) - n) (perTick [] xs))"
    by (rule fresh_run[OF d np pr])
  have a: "\<exists>s bs. run acts c = Inr s \<and> delayedInputs s = Some bs \<and> length bs = nat D
          \<and> appliedInputs s =
              concat (take (length (perTick [] acts) + 1 - nat D) (perTick [] acts))"
    using run[OF assms(5)] n by simp
  have b: "\<forall>pre post. acts = pre @ Step # post \<longrightarrow>
        (\<exists>s0 s1. run pre c = Inr s0 \<and> run (pre @ [Step]) c = Inr s1
           \<and> appliedInputs s1 =
               appliedInputs s0
               @ (if nat D \<le> length (perTick [] pre) + 1
                  then perTick [] acts ! (length (perTick [] pre) + 1 - nat D) else []))"
  proof (intro allI impI)
    fix pre post assume sp: "acts = pre @ Step # post"
    let ?P = "perTick [] acts"
    let ?t = "length (perTick [] pre)"
    have P: "?P = perTick [] pre @ pendingInputs [] pre # perTick [] post"
      unfolding sp by (rule perTick_split)
    have t: "?t < length ?P" unfolding P by simp
    have p0: "perTick [] pre = take ?t ?P" unfolding P by simp
    have p1: "perTick [] (pre @ [Step]) = take (Suc ?t) ?P"
      unfolding P by (simp add: perTick_append)
    have "acts = (pre @ [Step]) @ post" using sp by simp
    then have u1: "unskipped (pre @ [Step]) c" using assms(5) unskipped_prefix by metis
    then have u0: "unskipped pre c" by (rule unskipped_prefix)
    from run[OF u0] obtain s0 where
      s0: "run pre c = Inr s0"
          "appliedInputs s0 = concat (take (length (perTick [] pre) - n) (perTick [] pre))"
      by blast
    from run[OF u1] obtain s1 where
      s1: "run (pre @ [Step]) c = Inr s1"
          "appliedInputs s1 =
             concat (take (length (perTick [] (pre @ [Step])) - n) (perTick [] (pre @ [Step])))"
      by blast
    have l1: "length (perTick [] (pre @ [Step])) = Suc ?t" by (simp add: perTick_append)
    have t0: "take (?t - n) (take ?t ?P) = take (?t - n) ?P"
      and t1: "take (Suc ?t - n) (take (Suc ?t) ?P) = take (Suc ?t - n) ?P"
      by (simp_all add: min_def)
    have a0: "appliedInputs s0 = concat (take (?t - n) ?P)"
      using s0(2) t0 p0 by metis
    have a1: "appliedInputs s1 = concat (take (Suc ?t - n) ?P)"
      using s1(2) t1 p1 l1 by metis
    have "appliedInputs s1 =
            appliedInputs s0 @ (if nat D \<le> ?t + 1 then ?P ! (?t + 1 - nat D) else [])"
    proof (cases "n \<le> ?t")
      case True
      then have "Suc ?t - n = Suc (?t - n)" by simp
      moreover have "?t - n < length ?P" using t by simp
      ultimately have "take (Suc ?t - n) ?P = take (?t - n) ?P @ [?P ! (?t - n)]"
        by (simp add: take_Suc_conv_app_nth)
      then show ?thesis using a0 a1 True n by simp
    next
      case False
      then show ?thesis using a0 a1 n by simp
    qed
    then show "\<exists>s0 s1. run pre c = Inr s0 \<and> run (pre @ [Step]) c = Inr s1
           \<and> appliedInputs s1 =
               appliedInputs s0
               @ (if nat D \<le> length (perTick [] pre) + 1
                  then perTick [] acts ! (length (perTick [] pre) + 1 - nat D) else [])"
      using s0(1) s1(1) by blast
  qed
  show ?thesis using d n a b by simp
qed

theorem delayed_input_applied_witness:
  "constructor freshSynchronizer (\<lambda>p. p) sampleEngine (sampleOptions (Some 3))
     = Inr (sampleClient (Some 3))
   \<and> delayInputCount (sampleOptions (Some 3)) = Some 3 \<and> (0::int) < 3
   \<and> \<not> ge_passive sampleEngine
   \<and> unskipped [PlayerJoined 1, ServerStep (Some 2), SendInput ''I1'' None, Step,
              WorldUpdate [\<lparr>stepCount = Some 3\<rparr>], Step, Step, Step] (sampleClient (Some 3))
   \<and> perTick [] [PlayerJoined 1, ServerStep (Some 2), SendInput ''I1'' None, Step,
              WorldUpdate [\<lparr>stepCount = Some 3\<rparr>], Step, Step, Step] = [[(''I1'', None)], [], [], []]
   \<and> delayedInputs (sampleClient (Some 3)) = Some [[], [], []]
   \<and> (\<exists>s bs. run [PlayerJoined 1, ServerStep (Some 2), SendInput ''I1'' None, Step,
              WorldUpdate [\<lparr>stepCount = Some 3\<rparr>], Step, Step, Step] (sampleClient (Some 3)) = Inr s
          \<and> delayedInputs s = Some bs \<and> length bs = 3
          \<and> appliedInputs s = [(''I1'', None)])
   \<and> (\<exists>s0 s1. run [PlayerJoined 1, ServerStep (Some 2), SendInput ''I1'' None, Step,
              WorldUpdate [\<lparr>stepCount = Some 3\<rparr>], Step] (sampleClient (Some 3)) = Inr s0
          \<and> run ([PlayerJoined 1, ServerStep (Some 2), SendInput ''I1'' None, Step,
              WorldUpdate [\<lparr>stepCount = Some 3\<rparr>], Step] @ [Step]) (sampleClient (Some 3)) = Inr s1
          \<and> appliedInputs s1 = appliedInputs s0 @ [(''I1'', None)])"
proof -
  let ?W = "[PlayerJoined 1, ServerStep (Some 2), SendInput ''I1'' None, Step,
              WorldUpdate [\<lparr>stepCount = Some 3\<rparr>], Step, Step, Step] :: syncEvent list action list"
  let ?P = "[PlayerJoined 1, ServerStep (Some 2), SendInput ''I1'' None, Step,
              WorldUpdate [\<lparr>stepCount = Some 3\<rparr>], Step] :: syncEvent list action list"
  have h0: "constructor freshSynchronizer (\<lambda>p. p) sampleEngine (sampleOptions (Some 3))
             = Inr (sampleClient (Some 3) :: syncEvent list client)"
    by (rule constructor_sample)
  have h1: "delayInputCount (sampleOptions (Some 3)) = Some 3" "(0::int) < 3"
    "\<not> ge_passive sampleEngine"
    by (simp_all add: sampleOptions_def sampleEngine_def)
  have u: "unskipped ?W (sampleClient (Some 3))"
    by (simp add: step_def tickBody_def Let_def gameEngine_step_def applyDelayedInputs_closed
        handleOutboundInput_closed checkDrift_def clientAhead_def clientBehind_def
        drainInbound_fold handleInboundMessage_def maxStepCount_def stepReducer_def truthy_def
        sendInput_def newMessage_def playerJoined_def worldUpdate_def sampleClient_def
        initialFields_def sampleOptions_def sampleEngine_def STEP_DRIFT_THRESHOLD_def
        toDouble_def doInputLocal_def)
  have pt: "perTick [] ?W = [[(''I1'', None)], [], [], []]"
    and pp: "length (perTick [] ?P) = 2"
    by simp_all
  have sp: "?W = ?P @ Step # [Step]" by simp
  note t = delayed_input_applied[OF h0 h1 u]
  have r: "replicate (nat 3) [] = [[], [], []]" by (simp add: numeral_3_eq_3)
  have a: "delayedInputs (sampleClient (Some 3)) = Some [[], [], []]"
    using t r by simp
  have b: "\<exists>s bs. run ?W (sampleClient (Some 3)) = Inr s
          \<and> delayedInputs s = Some bs \<and> length bs = 3
          \<and> appliedInputs s = [(''I1'', None)]"
    using t unfolding pt by (simp del: run.simps)
  from t sp have "\<exists>s0 s1. run ?P (sampleClient (Some 3)) = Inr s0
      \<and> run (?P @ [Step]) (sampleClient (Some 3)) = Inr s1
      \<and> appliedInputs s1 =
          appliedInputs s0
          @ (if nat 3 \<le> length (perTick [] ?P) + 1
             then perTick [] ?W ! (length (perTick [] ?P) + 1 - nat 3) else [])"
    by blast
  then have c: "\<exists>s0 s1. run ?P (sampleClient (Some 3)) = Inr s0
          \<and> run (?P @ [Step]) (sampleClient (Some 3)) = Inr s1
          \<and> appliedInputs s1 = appliedInputs s0 @ [(''I1'', None)]"
    unfolding pt pp by (simp del: run.simps)
  show ?thesis using h0 h1 u pt a b c by (intro conjI)
qed

text \<open>
  The claim as stated (\<open>D + 1\<close> batches, application at tick \<open>T + D\<close> and not before)
  fails: with \<open>delayInputCount = 3\<close> the buffer has \<open>3\<close> batches, and an input issued for
  tick \<open>0\<close> has not been applied after ticks \<open>0\<close> and \<open>1\<close> but has been applied after ticks
  \<open>0\<close>, \<open>1\<close> and \<open>2\<close>, before tick \<open>3\<close> runs.
\<close>

theorem delayed_input_applied_one_tick_early:
  "map_sum (\<lambda>e. e) appliedInputs
     (run [SendInput ''I1'' None, Step, Step] (sampleClient (Some 3))) = Inr []
   \<and> map_sum (\<lambda>e. e) appliedInputs
       (run [SendInput ''I1'' None, Step, Step, Step] (sampleClient (Some 3)))
     = Inr [(''I1'', None)]
   \<and> map_option length (delayedInputs (sampleClient (Some 3))) = Some 3
   \<and> constructor freshSynchronizer (\<lambda>p. p) sampleEngine (sampleOptions (Some 3))
       = Inr (sampleClient (Some 3))"
proof -
  have u2: "unskipped [SendInput ''I1'' None, Step, Step] (sampleClient (Some 3))"
    by (rule unskipped_no_serverStep[OF sample_fresh(4,5)]) simp
  have u3: "unskipped [SendInput ''I1'' None, Step, Step, Step] (sampleClient (Some 3))"
    by (rule unskipped_no_serverStep[OF sample_fresh(4,5)]) simp
  from fresh_run[OF sample_fresh(1,2,3) u2]
  have a: "map_sum (\<lambda>e. e) appliedInputs
     (run [SendInput ''I1'' None, Step, Step] (sampleClient (Some 3))) = Inr []"
    by (auto simp del: run.simps)
  from fresh_run[OF sample_fresh(1,2,3) u3]
  have b: "map_sum (\<lambda>e. e) appliedInputs
       (run [SendInput ''I1'' None, Step, Step, Step] (sampleClient (Some 3)))
     = Inr [(''I1'', None)]"
    by (auto simp del: run.simps)
  have c: "map_option length (delayedInputs (sampleClient (Some 3))) = Some 3"
    by (simp add: sample_fresh(1))
  show ?thesis using a b c constructor_sample[of "Some 3"] by (intro conjI)
qed

end
